theory Spec2Isabelle
  imports Complex_Main "HOL-Library.Word" "HOL-Library.Multiset"
begin

section \<open>The Dropwizard input plugin (plugins/inputs/dropwizard/dropwizard.go)\<close>

text \<open>
  The plugin polls HTTP endpoints that serve Dropwizard metrics as JSON, decodes the
  document and hands one record per metric to the accumulator. The development follows
  the source file from the leaves up: the number parsers of Go's \<open>strconv\<close> that the
  gauge decoder calls, the gauge decoder \<open>gaugeValue.UnmarshalJSON\<close>, the payload
  structs, \<open>gatherURL\<close> with its five loops, and \<open>Gather\<close> with one goroutine per URL.
\<close>

subsection \<open>Go's strconv.ParseInt at base 10 and bit size 64\<close>

text \<open>
  \<open>strconv\<close> is Go's standard library. \<open>ParseInt\<close> picks off one leading sign and
  hands the rest to \<open>ParseUint\<close>, whose loop rejects every byte that is not a decimal
  digit and reports a range error as soon as the accumulator would leave 64 bits.
  A string is a list of bytes, as Go's \<open>string\<close> is.
\<close>

datatype NumError = ErrSyntax | ErrRange

type_synonym int64 = "64 word"

definition is_digit :: "char \<Rightarrow> bool" where
  "is_digit c = (48 \<le> (of_char c :: nat) \<and> (of_char c :: nat) \<le> 57)"

definition digit_of :: "char \<Rightarrow> nat" where
  "digit_of c = of_char c - 48"

definition maxUint64 :: nat where
  "maxUint64 = 2 ^ 64 - 1"

definition cutoff64 :: nat where
  \<comment> \<open>\<open>maxUint64 / 10 + 1\<close>: the least \<open>n\<close> with \<open>n * 10\<close> past 64 bits\<close>
  "cutoff64 = maxUint64 div 10 + 1"

fun ParseUint_loop :: "nat \<Rightarrow> string \<Rightarrow> NumError + nat" where
  "ParseUint_loop n [] = Inr n"
| "ParseUint_loop n (c # cs) =
     (if \<not> is_digit c then Inl ErrSyntax
      else if n \<ge> cutoff64 then Inl ErrRange
      else let n1 = n * 10 + digit_of c
           in if n1 > maxUint64 then Inl ErrRange else ParseUint_loop n1 cs)"

definition ParseUint :: "string \<Rightarrow> NumError + nat" where
  "ParseUint s = (if s = [] then Inl ErrSyntax else ParseUint_loop 0 s)"

definition ParseInt :: "string \<Rightarrow> NumError + int64" where
  "ParseInt s =
     (if s = [] then Inl ErrSyntax
      else let neg = (hd s = CHR ''-'');
               s1 = (if hd s = CHR ''+'' \<or> hd s = CHR ''-'' then tl s else s)
           in case ParseUint s1 of
                Inl ErrSyntax \<Rightarrow> Inl ErrSyntax
              | Inl ErrRange \<Rightarrow> Inl ErrRange
              | Inr un \<Rightarrow>
                  if \<not> neg \<and> un \<ge> 2 ^ 63 then Inl ErrRange
                  else if neg \<and> un > 2 ^ 63 then Inl ErrRange
                  else Inr (if neg then - word_of_nat un else word_of_nat un))"

subsection \<open>Go's strconv.ParseFloat at bit size 64\<close>

text \<open>
  A \<open>float64\<close> is kept as its three IEEE 754 fields: the sign bit, the 11-bit biased
  exponent and the 52-bit fraction. \<open>ParseFloat\<close> accepts the special names (inf,
  infinity, nan, in any letter case, the infinities with a sign) and decimal numbers:
  a sign, digits with at most one point among them, and an exponent part. The result is
  the nearest \<open>float64\<close> with ties to the even mantissa; a magnitude that rounds past
  the largest finite \<open>float64\<close> is a range error, a magnitude that rounds to zero is
  not an error. This is the function as it stood when the plugin was written; later Go
  releases also read hexadecimal mantissas and underscores between digits, neither of
  which a JSON value can contain.
\<close>

datatype float64 = Float64 (f_sign: bool) (f_exp: nat) (f_frac: nat)

definition f64_zero :: float64 where
  "f64_zero = Float64 False 0 0"

definition f64_Inf :: "bool \<Rightarrow> float64" where
  "f64_Inf neg = Float64 neg 2047 0"

definition f64_NaN :: float64 where
  "f64_NaN = Float64 False 2047 (2 ^ 51 + 1)"

definition f64_finite :: "float64 \<Rightarrow> bool" where
  "f64_finite f = (f_exp f < 2047 \<and> f_frac f < 2 ^ 52)"

definition f64_magnitude :: "float64 \<Rightarrow> rat" where
  \<comment> \<open>the absolute value of a finite \<open>float64\<close>\<close>
  "f64_magnitude f =
     (if f_exp f = 0 then of_nat (f_frac f) / 2 ^ 1074
      else if f_exp f < 1075 then of_nat (2 ^ 52 + f_frac f) / 2 ^ (1075 - f_exp f)
      else of_nat (2 ^ 52 + f_frac f) * 2 ^ (f_exp f - 1075))"

definition f64_value :: "float64 \<Rightarrow> rat" where
  "f64_value f = (if f_sign f then - f64_magnitude f else f64_magnitude f)"

fun bit_length :: "nat \<Rightarrow> nat" where
  "bit_length n = (if n = 0 then 0 else Suc (bit_length (n div 2)))"

declare bit_length.simps [simp del]

definition floor_log2 :: "nat \<Rightarrow> nat \<Rightarrow> int" where
  \<comment> \<open>the \<open>e\<close> with \<open>2 ^ e \<le> p / q < 2 ^ (e + 1)\<close>, for positive \<open>p\<close> and \<open>q\<close>\<close>
  "floor_log2 p q =
     (let d = int (bit_length p) - int (bit_length q)
      in if (if d \<ge> 0 then q * 2 ^ nat d \<le> p else q \<le> p * 2 ^ nat (- d)) then d else d - 1)"

definition round_half_even :: "nat \<Rightarrow> nat \<Rightarrow> nat" where
  \<comment> \<open>the integer nearest to \<open>p / q\<close>, the even one of two equally near\<close>
  "round_half_even p q =
     (let n = p div q; r = p mod q
      in if 2 * r < q then n
         else if 2 * r > q then n + 1
         else if even n then n else n + 1)"

definition float64_of_ratio :: "bool \<Rightarrow> nat \<Rightarrow> nat \<Rightarrow> NumError + float64" where
  \<comment> \<open>\<open>p / q\<close> with the sign \<open>neg\<close>, rounded to a \<open>float64\<close>\<close>
  "float64_of_ratio neg p q =
     (if p = 0 then Inr (Float64 neg 0 0)
      else let e = max (floor_log2 p q - 52) (- 1074);
               m = (if e \<ge> 0 then round_half_even p (q * 2 ^ nat e)
                    else round_half_even (p * 2 ^ nat (- e)) q);
               m' = (if m = 2 ^ 53 then 2 ^ 52 else m);
               e' = (if m = 2 ^ 53 then e + 1 else e)
           in if m' < 2 ^ 52 then Inr (Float64 neg 0 m')
              else if e' > 971 then Inl ErrRange
              else Inr (Float64 neg (nat (e' + 1075)) (m' - 2 ^ 52)))"

definition lower :: "char \<Rightarrow> char" where
  "lower c = (if 65 \<le> (of_char c :: nat) \<and> (of_char c :: nat) \<le> 90
              then char_of ((of_char c :: nat) + 32) else c)"

definition equalIgnoreCase :: "string \<Rightarrow> string \<Rightarrow> bool" where
  "equalIgnoreCase s t = (map lower s = map lower t)"

definition special :: "string \<Rightarrow> float64 option" where
  "special s =
     (if equalIgnoreCase s ''+inf'' \<or> equalIgnoreCase s ''+infinity'' then Some (f64_Inf False)
      else if equalIgnoreCase s ''-inf'' \<or> equalIgnoreCase s ''-infinity'' then Some (f64_Inf True)
      else if equalIgnoreCase s ''nan'' then Some f64_NaN
      else if equalIgnoreCase s ''inf'' \<or> equalIgnoreCase s ''infinity'' then Some (f64_Inf False)
      else None)"

definition digits_val :: "string \<Rightarrow> nat" where
  "digits_val s = foldl (\<lambda>n c. n * 10 + digit_of c) 0 s"

fun read_exp :: "nat \<Rightarrow> string \<Rightarrow> nat option" where
  \<comment> \<open>the exponent's digits; the accumulator stops growing at 10000\<close>
  "read_exp e [] = Some e"
| "read_exp e (c # cs) =
     (if is_digit c then read_exp (if e < 10000 then e * 10 + digit_of c else e) cs
      else None)"

definition read_exponent :: "string \<Rightarrow> int option" where
  \<comment> \<open>what follows the mantissa: nothing, or e, a sign and at least one digit\<close>
  "read_exponent s =
     (case s of
        [] \<Rightarrow> Some 0
      | c # cs \<Rightarrow>
          if c = CHR ''e'' \<or> c = CHR ''E'' then
            (let neg = (cs \<noteq> [] \<and> hd cs = CHR ''-'');
                 ds = (if cs \<noteq> [] \<and> (hd cs = CHR ''+'' \<or> hd cs = CHR ''-'') then tl cs else cs)
             in if ds = [] then None
                else case read_exp 0 ds of
                       None \<Rightarrow> None
                     | Some e \<Rightarrow> Some (if neg then - int e else int e))
          else None)"

definition readFloat :: "string \<Rightarrow> (bool \<times> nat \<times> int) option" where
  \<comment> \<open>sign, the mantissa's digits as a number, and the power of ten to scale it by\<close>
  "readFloat s =
     (if s = [] then None
      else let neg = (hd s = CHR ''-'');
               s1 = (if hd s = CHR ''+'' \<or> hd s = CHR ''-'' then tl s else s);
               ip = takeWhile is_digit s1;
               r1 = dropWhile is_digit s1;
               sawdot = (r1 \<noteq> [] \<and> hd r1 = CHR ''.'');
               fp = (if sawdot then takeWhile is_digit (tl r1) else []);
               r2 = (if sawdot then dropWhile is_digit (tl r1) else r1)
           in if ip = [] \<and> fp = [] then None
              else case read_exponent r2 of
                     None \<Rightarrow> None
                   | Some e \<Rightarrow> Some (neg, digits_val (ip @ fp), e - int (length fp)))"

definition ParseFloat :: "string \<Rightarrow> NumError + float64" where
  "ParseFloat s =
     (case special s of
        Some f \<Rightarrow> Inr f
      | None \<Rightarrow>
          (case readFloat s of
             None \<Rightarrow> Inl ErrSyntax
           | Some (neg, m, e) \<Rightarrow>
               if e \<ge> 0 then float64_of_ratio neg (m * 10 ^ nat e) 1
               else float64_of_ratio neg m (10 ^ nat (- e))))"

subsection \<open>Go's strings.Trim\<close>

definition Trim :: "string \<Rightarrow> string \<Rightarrow> string" where
  \<comment> \<open>all leading and all trailing bytes of \<open>s\<close> that occur in \<open>cutset\<close> removed\<close>
  "Trim s cutset =
     rev (dropWhile (\<lambda>c. c \<in> set cutset) (rev (dropWhile (\<lambda>c. c \<in> set cutset) s)))"

subsection \<open>The gauge value and its decoder\<close>

datatype gaugeValueType = IntType | FloatType | StringType

record gaugeValue =
  IntValue :: int64
  FloatValue :: float64
  StringValue :: string
  Type :: gaugeValueType

definition UnmarshalJSON :: "string \<Rightarrow> string + gaugeValue" where
  \<comment> \<open>the fields a composite literal leaves out hold Go's zero values; the error
      returned is always nil, here \<open>Inr\<close>\<close>
  "UnmarshalJSON b =
     (let jsonString = b
      in case ParseInt jsonString of
           Inr intValue \<Rightarrow>
             Inr \<lparr>IntValue = intValue, FloatValue = f64_zero, StringValue = [], Type = IntType\<rparr>
         | Inl _ \<Rightarrow>
             (case ParseFloat jsonString of
                Inr floatValue \<Rightarrow>
                  Inr \<lparr>IntValue = 0, FloatValue = floatValue, StringValue = [], Type = FloatType\<rparr>
              | Inl _ \<Rightarrow>
                  Inr \<lparr>IntValue = 0, FloatValue = f64_zero,
                       StringValue = Trim jsonString [CHR 0x22], Type = StringType\<rparr>))"

subsection \<open>The payload structs and the decoded document\<close>

text \<open>
  Field selectors carry the struct's initial, since Go's field names (\<open>Count\<close>,
  \<open>Max\<close>, ...) repeat from struct to struct. A Go map is kept as the list of its
  entries in the order in which the \<open>range\<close> loop of this run visits them; Go leaves
  that order open, so nothing below depends on it.
\<close>

record gauge =
  g_Value :: gaugeValue

record counter =
  c_Count :: int64

record histogram =
  h_Count :: int64
  h_Max :: int64
  h_Mean :: float64
  h_Min :: int64
  h_P50 :: float64
  h_P75 :: float64
  h_P95 :: float64
  h_P98 :: float64
  h_P99 :: float64
  h_P999 :: float64
  h_Stddev :: float64

record meter =
  m_Count :: int64
  m_M15Rate :: float64
  m_M1Rate :: float64
  m_M5Rate :: float64
  m_MeanRate :: float64
  m_Units :: string

record timer =
  t_Count :: int64
  t_Max :: float64
  t_Mean :: float64
  t_Min :: float64
  t_P50 :: float64
  t_P75 :: float64
  t_P95 :: float64
  t_P98 :: float64
  t_P99 :: float64
  t_P999 :: float64
  t_Stddev :: float64
  t_M15Rate :: float64
  t_M1Rate :: float64
  t_M5Rate :: float64
  t_MeanRate :: float64
  t_DurationUnits :: string
  t_RateUnits :: string

record metrics =
  Version :: string
  Gauges :: "(string \<times> gauge) list"
  Counters :: "(string \<times> counter) list"
  Histograms :: "(string \<times> histogram) list"
  Meters :: "(string \<times> meter) list"
  Timers :: "(string \<times> timer) list"

subsection \<open>The accumulator, as the log of the calls made on it\<close>

text \<open>
  \<open>telegraf.Accumulator\<close> is an interface of the host. The plugin only ever calls it,
  so it is kept as the list of calls received, oldest first. A field value is what the
  plugin stores in a \<open>map[string]interface{}\<close>: an \<open>int64\<close> or a \<open>float64\<close>. The
  tags argument is a map that may be nil; the time is in nanoseconds.
\<close>

datatype field_value = IntField int64 | FloatField float64

datatype acc_method = AddFields | AddGauge | AddCounter | AddHistogram

record out_record =
  selector :: acc_method
  measurement :: string
  field_map :: "string \<rightharpoonup> field_value"
  tags :: "(string \<rightharpoonup> string) option"
  timestamp :: nat

datatype acc_call = Metric out_record | AddError string

type_synonym accumulator = "acc_call list"

definition records_of :: "accumulator \<Rightarrow> out_record list" where
  "records_of cs = concat (map (\<lambda>c. case c of Metric r \<Rightarrow> [r] | AddError e \<Rightarrow> []) cs)"

definition errors_of :: "accumulator \<Rightarrow> string list" where
  "errors_of cs = concat (map (\<lambda>c. case c of Metric r \<Rightarrow> [] | AddError e \<Rightarrow> [e]) cs)"

subsection \<open>The plugin's state and the world around it\<close>

record 'tls http_Transport =
  ResponseHeaderTimeout :: int
  TLSClientConfig :: 'tls

record 'tls http_Client =
  Transport :: "'tls http_Transport"
  client_Timeout :: int

record 'tls Dropwizard =
  URLs :: "string list"
  SSLCA :: string
  SSLCert :: string
  SSLKey :: string
  InsecureSkipVerify :: bool
  Timeout :: int
  client :: "'tls http_Client option"

text \<open>
  What the plugin reaches outside its own file is a parameter: \<open>internal.GetTLSConfig\<close>
  (certificate, key, CA, skip-verify flag to an error or a TLS configuration of type
  \<open>'tls\<close>), the clock, the HTTP round trip and Go's JSON decoder. The goroutines of a
  pass are numbered by the position of their URL. \<open>time_Now i k\<close> is what the clock
  shows to goroutine \<open>i\<close> once \<open>k\<close> of its calls into the world have returned: 0 on
  entry, 1 after the HTTP round trip, 2 after decoding. Goroutine \<open>i\<close> gets
  \<open>client_Get c i url\<close> from its request: an error or the body of the response.
  \<open>json_Decode\<close> gives the document as far as the decoder filled it and the decoder's
  error if it had one.
\<close>

record 'tls env =
  GetTLSConfig :: "string \<Rightarrow> string \<Rightarrow> string \<Rightarrow> bool \<Rightarrow> string + 'tls"
  time_Now :: "nat \<Rightarrow> nat \<Rightarrow> nat"
  client_Get :: "'tls http_Client \<Rightarrow> nat \<Rightarrow> string \<Rightarrow> string + string"
  json_Decode :: "string \<Rightarrow> metrics \<times> string option"

definition DecodeJSONMetrics :: "'tls env \<Rightarrow> string \<Rightarrow> metrics \<times> string option" where
  "DecodeJSONMetrics E r =
     (let (decodedMetrics, err) = json_Decode E r
      in case err of
           Some e \<Rightarrow> (decodedMetrics, Some e)
         | None \<Rightarrow> (decodedMetrics, None))"

subsection \<open>gatherURL: the five loops\<close>

text \<open>
  Each loop body is one call on the accumulator; the record it passes is named after
  the loop. The gauge loop makes its call only under the two type tests.
\<close>

definition gauge_int_record :: "nat \<Rightarrow> string \<Rightarrow> gauge \<Rightarrow> out_record" where
  "gauge_int_record now name g =
     \<lparr>selector = AddGauge, measurement = name,
      field_map = [''value'' \<mapsto> IntField (IntValue (g_Value g))],
      tags = None, timestamp = now\<rparr>"

definition gauge_float_record :: "nat \<Rightarrow> string \<Rightarrow> gauge \<Rightarrow> out_record" where
  "gauge_float_record now name g =
     \<lparr>selector = AddGauge, measurement = name,
      field_map = [''value'' \<mapsto> FloatField (FloatValue (g_Value g))],
      tags = None, timestamp = now\<rparr>"

definition counter_record :: "nat \<Rightarrow> string \<Rightarrow> counter \<Rightarrow> out_record" where
  "counter_record now name c =
     \<lparr>selector = AddCounter, measurement = name,
      field_map = [''count'' \<mapsto> IntField (c_Count c)],
      tags = None, timestamp = now\<rparr>"

definition histogram_record :: "nat \<Rightarrow> string \<Rightarrow> histogram \<Rightarrow> out_record" where
  "histogram_record now name h =
     \<lparr>selector = AddHistogram, measurement = name,
      field_map = [''count'' \<mapsto> IntField (h_Count h),
                   ''max'' \<mapsto> IntField (h_Max h),
                   ''mean'' \<mapsto> FloatField (h_Mean h),
                   ''min'' \<mapsto> IntField (h_Min h),
                   ''p50'' \<mapsto> FloatField (h_P50 h),
                   ''p75'' \<mapsto> FloatField (h_P75 h),
                   ''p95'' \<mapsto> FloatField (h_P95 h),
                   ''p98'' \<mapsto> FloatField (h_P98 h),
                   ''p99'' \<mapsto> FloatField (h_P99 h),
                   ''p999'' \<mapsto> FloatField (h_P999 h),
                   ''stddev'' \<mapsto> FloatField (h_Stddev h)],
      tags = None, timestamp = now\<rparr>"

definition meter_record :: "nat \<Rightarrow> string \<Rightarrow> meter \<Rightarrow> out_record" where
  "meter_record now name m =
     \<lparr>selector = AddHistogram, measurement = name,
      field_map = [''count'' \<mapsto> IntField (m_Count m),
                   ''m15_rate'' \<mapsto> FloatField (m_M15Rate m),
                   ''m1_rate'' \<mapsto> FloatField (m_M1Rate m),
                   ''m5_rate'' \<mapsto> FloatField (m_M5Rate m),
                   ''mean_rate'' \<mapsto> FloatField (m_MeanRate m)],
      tags = None, timestamp = now\<rparr>"

definition timer_record :: "nat \<Rightarrow> string \<Rightarrow> timer \<Rightarrow> out_record" where
  "timer_record now name t =
     \<lparr>selector = AddFields, measurement = name,
      field_map = [''count'' \<mapsto> IntField (t_Count t),
                   ''max'' \<mapsto> FloatField (t_Max t),
                   ''mean'' \<mapsto> FloatField (t_Mean t),
                   ''min'' \<mapsto> FloatField (t_Min t),
                   ''p50'' \<mapsto> FloatField (t_P50 t),
                   ''p75'' \<mapsto> FloatField (t_P75 t),
                   ''p95'' \<mapsto> FloatField (t_P95 t),
                   ''p98'' \<mapsto> FloatField (t_P98 t),
                   ''p99'' \<mapsto> FloatField (t_P99 t),
                   ''p999'' \<mapsto> FloatField (t_P999 t),
                   ''stddev'' \<mapsto> FloatField (t_Stddev t),
                   ''m15_rate'' \<mapsto> FloatField (t_M15Rate t),
                   ''m1_rate'' \<mapsto> FloatField (t_M1Rate t),
                   ''m5_rate'' \<mapsto> FloatField (t_M5Rate t),
                   ''mean_rate'' \<mapsto> FloatField (t_MeanRate t)],
      tags = None, timestamp = now\<rparr>"

fun gauge_calls :: "nat \<Rightarrow> (string \<times> gauge) list \<Rightarrow> acc_call list" where
  "gauge_calls now [] = []"
| "gauge_calls now ((name, g) # gs) =
     (if Type (g_Value g) = IntType then [Metric (gauge_int_record now name g)]
      else if Type (g_Value g) = FloatType then [Metric (gauge_float_record now name g)]
      else []) @ gauge_calls now gs"

fun counter_calls :: "nat \<Rightarrow> (string \<times> counter) list \<Rightarrow> acc_call list" where
  "counter_calls now [] = []"
| "counter_calls now ((name, c) # cs) =
     Metric (counter_record now name c) # counter_calls now cs"

fun histogram_calls :: "nat \<Rightarrow> (string \<times> histogram) list \<Rightarrow> acc_call list" where
  "histogram_calls now [] = []"
| "histogram_calls now ((name, h) # hs) =
     Metric (histogram_record now name h) # histogram_calls now hs"

fun meter_calls :: "nat \<Rightarrow> (string \<times> meter) list \<Rightarrow> acc_call list" where
  "meter_calls now [] = []"
| "meter_calls now ((name, m) # ms) =
     Metric (meter_record now name m) # meter_calls now ms"

fun timer_calls :: "nat \<Rightarrow> (string \<times> timer) list \<Rightarrow> acc_call list" where
  "timer_calls now [] = []"
| "timer_calls now ((name, t) # ts) =
     Metric (timer_record now name t) # timer_calls now ts"

definition normalizer :: "nat \<Rightarrow> metrics \<Rightarrow> acc_call list" where
  \<comment> \<open>lines 249 to 325: the loops over gauges, counters, histograms, meters and timers\<close>
  "normalizer now doc =
     gauge_calls now (Gauges doc) @ counter_calls now (Counters doc) @
     histogram_calls now (Histograms doc) @ meter_calls now (Meters doc) @
     timer_calls now (Timers doc)"

text \<open>
  \<open>gatherURL\<close> gives the calls it made on the accumulator, in order, and the error it
  returned. It dereferences \<open>d.client\<close>: with a nil client the goroutine panics, which
  is \<open>Crashed\<close>.
\<close>

datatype gather_result = Crashed | Done "acc_call list" "string option"

definition gatherURL :: "'tls env \<Rightarrow> 'tls Dropwizard \<Rightarrow> nat \<Rightarrow> string \<Rightarrow> gather_result" where
  "gatherURL E d i url =
     (let now = time_Now E i 0
      in case client d of
           None \<Rightarrow> Crashed
         | Some c \<Rightarrow>
             (case client_Get E c i url of
                Inl err \<Rightarrow> Done [] (Some err)
              | Inr body \<Rightarrow>
                  (case DecodeJSONMetrics E body of
                     (doc, Some err) \<Rightarrow> Done [] (Some err)
                   | (doc, None) \<Rightarrow> Done (normalizer now doc) None)))"

subsection \<open>Gather: one goroutine per URL\<close>

definition goroutine :: "'tls env \<Rightarrow> 'tls Dropwizard \<Rightarrow> nat \<Rightarrow> string \<Rightarrow> acc_call list option" where
  \<comment> \<open>the closure of lines 107 to 112; \<open>None\<close> when \<open>gatherURL\<close> panics\<close>
  "goroutine E d i url =
     (case gatherURL E d i url of
        Crashed \<Rightarrow> None
      | Done calls (Some err) \<Rightarrow> Some (calls @ [AddError (''[url='' @ url @ '']: '' @ err)])
      | Done calls None \<Rightarrow> Some calls)"

primrec interleavings :: "'a list list \<Rightarrow> 'a list set" where
  "interleavings [] = {[]}"
| "interleavings (xs # xss) = (\<Union>ys \<in> interleavings xss. shuffles xs ys)"

datatype 'tls pass_result = PassCrashed | PassDone "string option" "'tls Dropwizard" accumulator

definition run_goroutines ::
  "'tls env \<Rightarrow> 'tls Dropwizard \<Rightarrow> accumulator \<Rightarrow> 'tls pass_result set" where
  \<comment> \<open>lines 104 to 117: start every goroutine, wait for all, return nil. The calls of
      one goroutine reach the accumulator in its own order, those of different
      goroutines in any order\<close>
  "run_goroutines E d acc =
     (let rs = map (\<lambda>(i, u). goroutine E d i u) (enumerate 0 (URLs d))
      in if None \<in> set rs then {PassCrashed}
         else (\<lambda>zs. PassDone None d (acc @ zs)) ` interleavings (map the rs))"

definition Gather :: "'tls env \<Rightarrow> 'tls Dropwizard \<Rightarrow> accumulator \<Rightarrow> 'tls pass_result set" where
  "Gather E d0 acc =
     (let d = (if length (URLs d0) = 0
               then d0\<lparr>URLs := [''http://localhost:8081/metrics'']\<rparr> else d0)
      in case client d of
           None \<Rightarrow>
             (case GetTLSConfig E (SSLCert d) (SSLKey d) (SSLCA d) (InsecureSkipVerify d) of
                Inl err \<Rightarrow> {PassDone (Some err) d acc}
              | Inr tlsCfg \<Rightarrow>
                  run_goroutines E
                    (d\<lparr>client := Some \<lparr>Transport = \<lparr>ResponseHeaderTimeout = Timeout d,
                                                      TLSClientConfig = tlsCfg\<rparr>,
                                         client_Timeout = Timeout d\<rparr>\<rparr>) acc)
         | Some c \<Rightarrow> run_goroutines E d acc)"

subsection \<open>Notions of the specification\<close>

text \<open>
  The specification speaks of tokens that are base-10 integer literals, of the number
  such a literal denotes, and of a token with one leading and one trailing double quote
  stripped. These follow its words, to be compared with what the code computes.
\<close>

definition quote :: char where
  "quote = CHR 0x22"

definition is_int_literal :: "string \<Rightarrow> bool" where
  \<comment> \<open>an optional sign and then one or more decimal digits\<close>
  "is_int_literal s =
     (let ds = (if s \<noteq> [] \<and> (hd s = CHR ''+'' \<or> hd s = CHR ''-'') then tl s else s)
      in ds \<noteq> [] \<and> list_all is_digit ds)"

definition int_literal_value :: "string \<Rightarrow> int" where
  "int_literal_value s =
     (if s \<noteq> [] \<and> hd s = CHR ''-'' then - int (digits_val (tl s))
      else if s \<noteq> [] \<and> hd s = CHR ''+'' then int (digits_val (tl s))
      else int (digits_val s))"

definition strip_one_quote :: "string \<Rightarrow> string" where
  "strip_one_quote s =
     (let s1 = (if s \<noteq> [] \<and> hd s = quote then tl s else s)
      in if s1 \<noteq> [] \<and> last s1 = quote then butlast s1 else s1)"

definition unquoted :: "string \<Rightarrow> bool" where
  \<comment> \<open>neither the first nor the last byte is a double quote\<close>
  "unquoted s = (s = [] \<or> (hd s \<noteq> quote \<and> last s \<noteq> quote))"

definition numeric_gauge :: "string \<times> gauge \<Rightarrow> bool" where
  \<comment> \<open>a gauge whose value variant is Integer or Float\<close>
  "numeric_gauge ng =
     (Type (g_Value (snd ng)) = IntType \<or> Type (g_Value (snd ng)) = FloatType)"

definition calls_of :: "'tls env \<Rightarrow> 'tls Dropwizard \<Rightarrow> nat \<Rightarrow> string \<Rightarrow> acc_call list" where
  \<comment> \<open>what the goroutine of one URL sends to the accumulator: the records of its
      pipeline and then, if the pipeline returned an error, that error behind its URL\<close>
  "calls_of E d i url =
     (case gatherURL E d i url of
        Crashed \<Rightarrow> []
      | Done calls (Some err) \<Rightarrow> calls @ [AddError (''[url='' @ url @ '']: '' @ err)]
      | Done calls None \<Rightarrow> calls)"

definition url_errors :: "'tls env \<Rightarrow> 'tls Dropwizard \<Rightarrow> string list" where
  \<comment> \<open>the errors of the per-URL pipelines of a pass, each annotated with its URL\<close>
  "url_errors E d =
     concat (map (\<lambda>(i, url).
       case gatherURL E d i url of
         Done calls (Some err) \<Rightarrow> [''[url='' @ url @ '']: '' @ err]
       | _ \<Rightarrow> []) (enumerate 0 (URLs d)))"

subsection \<open>A small world to run the plugin in\<close>

text \<open>
  One document with a gauge of each variant, a counter and a meter, and a world with
  two endpoints: the first serves that document, the second serves bytes the decoder
  rejects; every other URL refuses the connection. The clock of goroutine \<open>i\<close> starts
  at \<open>1000 * i\<close> and advances by one with each call that returns.
\<close>

definition example_doc :: metrics where
  "example_doc =
     \<lparr>Version = ''3.0.0'',
      Gauges = [(''jvm.x'', \<lparr>g_Value = \<lparr>IntValue = 7, FloatValue = f64_zero,
                                           StringValue = [], Type = IntType\<rparr>\<rparr>),
                (''jvm.y'', \<lparr>g_Value = \<lparr>IntValue = 0, FloatValue = f64_zero,
                                           StringValue = ''ok'', Type = StringType\<rparr>\<rparr>)],
      Counters = [(''requests.total'', \<lparr>c_Count = 42\<rparr>)],
      Histograms = [],
      Meters = [(''requests.rate'',
                 \<lparr>m_Count = 3, m_M15Rate = f64_zero, m_M1Rate = f64_zero, m_M5Rate = f64_zero,
                  m_MeanRate = f64_zero, m_Units = ''events/second''\<rparr>)],
      Timers = []\<rparr>"

definition empty_doc :: metrics where
  "empty_doc =
     \<lparr>Version = [], Gauges = [], Counters = [], Histograms = [], Meters = [], Timers = []\<rparr>"

definition example_env :: "unit env" where
  "example_env =
     \<lparr>GetTLSConfig = (\<lambda>cert key ca insecure. Inr ()),
      time_Now = (\<lambda>i k. 1000 * i + k),
      client_Get = (\<lambda>c i url.
        if url = ''http://a/metrics'' then Inr ''good''
        else if url = ''http://b/metrics'' then Inr ''bad''
        else Inl ''connection refused''),
      json_Decode = (\<lambda>body.
        if body = ''good'' then (example_doc, None)
        else (empty_doc\<lparr>Version := ''3.0.0''\<rparr>, Some ''unexpected end of JSON input''))\<rparr>"

definition example_plugin :: "unit Dropwizard" where
  "example_plugin =
     \<lparr>URLs = [''http://a/metrics'', ''http://b/metrics''], SSLCA = [], SSLCert = [],
      SSLKey = [], InsecureSkipVerify = False, Timeout = 5000000000, client = None\<rparr>"

definition example_ready :: "unit Dropwizard" where
  \<comment> \<open>the plugin once its first pass has built the client\<close>
  "example_ready =
     example_plugin\<lparr>client := Some \<lparr>Transport = \<lparr>ResponseHeaderTimeout = 5000000000,
                                                   TLSClientConfig = ()\<rparr>,
                                      client_Timeout = 5000000000\<rparr>\<rparr>"

definition example_bad_tls :: "unit env" where
  \<comment> \<open>the same world with a certificate file that cannot be read\<close>
  "example_bad_tls =
     example_env\<lparr>GetTLSConfig := (\<lambda>cert key ca insecure.
       Inl ''could not load keypair: open cert.pem: no such file or directory'')\<rparr>"

section \<open>Properties\<close>

subsection \<open>ParseInt succeeds exactly on the integer literals of 64 bits\<close>

lemma foldl_digits_ge: "n \<le> foldl (\<lambda>n c. n * 10 + digit_of c) n cs"
proof (induction cs arbitrary: n)
  case Nil
  show ?case by simp
next
  case (Cons c cs)
  have "n \<le> n * 10 + digit_of c" by simp
  also have "\<dots> \<le> foldl (\<lambda>n c. n * 10 + digit_of c) (n * 10 + digit_of c) cs"
    by (rule Cons.IH)
  finally show ?case by simp
qed

lemma ParseUint_loop_Inr:
  "(ParseUint_loop n cs = Inr v) =
     (list_all is_digit cs \<and> foldl (\<lambda>n c. n * 10 + digit_of c) n cs \<le> maxUint64 \<and>
      v = foldl (\<lambda>n c. n * 10 + digit_of c) n cs)" if "n \<le> maxUint64"
  using that
proof (induction cs arbitrary: n)
  case Nil
  then show ?case by auto
next
  case (Cons c cs)
  let ?n1 = "n * 10 + digit_of c"
  have ge: "?n1 \<le> foldl (\<lambda>n c. n * 10 + digit_of c) ?n1 cs"
    by (rule foldl_digits_ge)
  show ?case
  proof (cases "is_digit c")
    case False
    then show ?thesis by simp
  next
    case dig: True
    show ?thesis
    proof (cases "n \<ge> cutoff64")
      case True
      then have "?n1 > maxUint64"
        by (simp add: cutoff64_def maxUint64_def)
      with ge dig True show ?thesis by simp
    next
      case nc: False
      show ?thesis
      proof (cases "?n1 > maxUint64")
        case True
        with ge dig nc show ?thesis by (simp add: Let_def)
      next
        case False
        then have "?n1 \<le> maxUint64" by simp
        from Cons.IH [OF this] dig nc False show ?thesis by (simp add: Let_def)
      qed
    qed
  qed
qed

lemma ParseUint_Inr:
  "(ParseUint s = Inr v) =
     (s \<noteq> [] \<and> list_all is_digit s \<and> digits_val s \<le> maxUint64 \<and> v = digits_val s)"
  by (simp add: ParseUint_def digits_val_def ParseUint_loop_Inr maxUint64_def)

lemma is_digit_sign [simp]: "\<not> is_digit (CHR ''+'')" "\<not> is_digit (CHR ''-'')"
  by (simp_all add: is_digit_def)

lemma ParseInt_Cons:
  "ParseInt (c # cs) =
     (case ParseUint (if c = CHR ''+'' \<or> c = CHR ''-'' then cs else c # cs) of
        Inl e \<Rightarrow> Inl e
      | Inr un \<Rightarrow>
          if c \<noteq> CHR ''-'' \<and> un \<ge> 2 ^ 63 then Inl ErrRange
          else if c = CHR ''-'' \<and> un > 2 ^ 63 then Inl ErrRange
          else Inr (if c = CHR ''-'' then - word_of_nat un else word_of_nat un))"
  by (simp add: ParseInt_def Let_def split: sum.splits NumError.splits)

lemma ParseInt_Inr:
  "(ParseInt s = Inr w) =
     (is_int_literal s \<and> - (2 ^ 63) \<le> int_literal_value s \<and> int_literal_value s < 2 ^ 63 \<and>
      w = word_of_int (int_literal_value s))"
proof (cases s)
  case Nil
  then show ?thesis by (simp add: ParseInt_def is_int_literal_def)
next
  case (Cons c cs)
  let ?ds = "if c = CHR ''+'' \<or> c = CHR ''-'' then cs else c # cs"
  let ?rhs = "is_int_literal s \<and> - (2 ^ 63) \<le> int_literal_value s \<and>
    int_literal_value s < 2 ^ 63 \<and> w = word_of_int (int_literal_value s)"
  have lit: "is_int_literal s = (?ds \<noteq> [] \<and> list_all is_digit ?ds)"
    using Cons by (simp add: is_int_literal_def)
  have val: "int_literal_value s =
      (if c = CHR ''-'' then - int (digits_val ?ds) else int (digits_val ?ds))"
    using Cons by (simp add: int_literal_value_def)
  show ?thesis
  proof (cases "ParseUint ?ds")
    case (Inl e)
    then have "\<not> (?ds \<noteq> [] \<and> list_all is_digit ?ds \<and> digits_val ?ds \<le> maxUint64)"
      using ParseUint_Inr [of ?ds "digits_val ?ds"] by auto
    moreover have "digits_val ?ds \<le> maxUint64"
      if "- (2 ^ 63) \<le> int_literal_value s" "int_literal_value s < 2 ^ 63"
      using that unfolding val maxUint64_def by (simp split: if_splits)
    ultimately have "\<not> (is_int_literal s \<and> - (2 ^ 63) \<le> int_literal_value s \<and>
        int_literal_value s < 2 ^ 63)"
      unfolding lit by blast
    moreover have "ParseInt s \<noteq> Inr w"
      using Inl unfolding Cons ParseInt_Cons by simp
    ultimately show ?thesis by blast
  next
    case (Inr un)
    then have un: "?ds \<noteq> []" "list_all is_digit ?ds" "un = digits_val ?ds"
      using ParseUint_Inr [of ?ds un] by auto
    show ?thesis
    proof (cases "c = CHR ''-''")
      case True
      have "(ParseInt s = Inr w) = (\<not> un > 2 ^ 63 \<and> w = - word_of_nat un)"
        unfolding Cons ParseInt_Cons using Inr True by auto
      also have "\<dots> = ?rhs"
        unfolding lit val using un True by auto
      finally show ?thesis .
    next
      case False
      have "(ParseInt s = Inr w) = (\<not> un \<ge> 2 ^ 63 \<and> w = word_of_nat un)"
        unfolding Cons ParseInt_Cons using Inr False by auto
      also have "\<dots> = ?rhs"
        unfolding lit val using un False by auto
      finally show ?thesis .
    qed
  qed
qed

lemma sint_int64_of_int:
  "sint (word_of_int v :: int64) = v" if "- (2 ^ 63) \<le> v" "v < 2 ^ 63"
  using that by (simp add: signed_of_int signed_take_bit_int_eq_self)

subsection \<open>The gauge decoder\<close>

lemmas parse_eval =
  ParseInt_def ParseUint_def is_digit_def digit_of_def cutoff64_def maxUint64_def
  ParseFloat_def special_def equalIgnoreCase_def readFloat_def read_exponent_def digits_val_def
  float64_of_ratio_def floor_log2_def bit_length.simps round_half_even_def Let_def lower_def

lemma UnmarshalJSON_Int:
  "ParseInt b = Inr n \<Longrightarrow>
   UnmarshalJSON b = Inr \<lparr>IntValue = n, FloatValue = f64_zero, StringValue = [], Type = IntType\<rparr>"
  by (simp add: UnmarshalJSON_def)

lemma UnmarshalJSON_Float:
  "isl (ParseInt b) \<Longrightarrow> ParseFloat b = Inr f \<Longrightarrow>
   UnmarshalJSON b = Inr \<lparr>IntValue = 0, FloatValue = f, StringValue = [], Type = FloatType\<rparr>"
  by (auto simp: UnmarshalJSON_def split: sum.splits)

lemma UnmarshalJSON_String:
  "isl (ParseInt b) \<Longrightarrow> isl (ParseFloat b) \<Longrightarrow>
   UnmarshalJSON b = Inr \<lparr>IntValue = 0, FloatValue = f64_zero,
                           StringValue = Trim b [CHR 0x22], Type = StringType\<rparr>"
  by (auto simp: UnmarshalJSON_def split: sum.splits)

text \<open>
  C6: the gauge decoder never fails. For every token it returns a value and no error;
  the value has the Integer variant exactly when the integer parse succeeds, the Float
  variant exactly when the integer parse fails and the float parse succeeds, and the
  String variant exactly when both fail, so a malformed token becomes a String.
\<close>

theorem scalar_decoder_never_fails:
  "\<exists>v. UnmarshalJSON b = Inr v \<and>
       (Type v = IntType \<longleftrightarrow> \<not> isl (ParseInt b)) \<and>
       (Type v = FloatType \<longleftrightarrow> isl (ParseInt b) \<and> \<not> isl (ParseFloat b)) \<and>
       (Type v = StringType \<longleftrightarrow> isl (ParseInt b) \<and> isl (ParseFloat b))"
  by (auto simp: UnmarshalJSON_def split: sum.splits)

lemma ParseInt_malformed: "ParseInt ''{oops'' = Inl ErrSyntax"
  by (simp add: parse_eval)

lemma ParseFloat_malformed: "ParseFloat ''{oops'' = Inl ErrSyntax"
  by (simp add: parse_eval)

theorem scalar_decoder_never_fails_witness:
  "isl (ParseInt ''{oops'') \<and> isl (ParseFloat ''{oops'') \<and>
   (\<exists>v. UnmarshalJSON ''{oops'' = Inr v \<and> Type v = StringType)"
  using scalar_decoder_never_fails [of "''{oops''"]
  by (auto simp: ParseInt_malformed ParseFloat_malformed)

text \<open>
  C2, as the specification has it, fails: the token 9223372036854775808 is an integer
  literal, yet it decodes to the Float variant, since it does not fit 64 bits.
\<close>

theorem int_literal_decoded_Float_counterexample:
  "is_int_literal ''9223372036854775808'' \<and>
   UnmarshalJSON ''9223372036854775808'' =
     Inr \<lparr>IntValue = 0, FloatValue = Float64 False 1086 0, StringValue = [], Type = FloatType\<rparr>"
  by (simp add: is_int_literal_def UnmarshalJSON_def parse_eval)

text \<open>
  C2, amended: the integer parse comes first, so a token it accepts is an Integer
  whatever the float parse would say; every integer literal whose value lies in the
  signed 64-bit range decodes to the Integer variant holding exactly that value; and
  an integer literal whose value lies outside that range is not an Integer.
\<close>

theorem int_literal_in_range_decodes_Integer:
  "(\<forall>n. ParseInt b = Inr n \<longrightarrow>
      UnmarshalJSON b =
        Inr \<lparr>IntValue = n, FloatValue = f64_zero, StringValue = [], Type = IntType\<rparr>) \<and>
   (is_int_literal b \<and> - (2 ^ 63) \<le> int_literal_value b \<and> int_literal_value b < 2 ^ 63 \<longrightarrow>
      (\<exists>n. UnmarshalJSON b =
             Inr \<lparr>IntValue = n, FloatValue = f64_zero, StringValue = [], Type = IntType\<rparr> \<and>
           sint n = int_literal_value b)) \<and>
   (is_int_literal b \<and> (int_literal_value b < - (2 ^ 63) \<or> 2 ^ 63 \<le> int_literal_value b) \<longrightarrow>
      (\<exists>v. UnmarshalJSON b = Inr v \<and> Type v \<noteq> IntType \<and> IntValue v = 0))"
proof (intro conjI allI impI)
  fix n
  assume "ParseInt b = Inr n"
  then show "UnmarshalJSON b =
      Inr \<lparr>IntValue = n, FloatValue = f64_zero, StringValue = [], Type = IntType\<rparr>"
    by (rule UnmarshalJSON_Int)
next
  let ?v = "int_literal_value b"
  assume a: "is_int_literal b \<and> - (2 ^ 63) \<le> ?v \<and> ?v < 2 ^ 63"
  then have "ParseInt b = Inr (word_of_int ?v)"
    by (simp add: ParseInt_Inr)
  then have "UnmarshalJSON b =
      Inr \<lparr>IntValue = word_of_int ?v, FloatValue = f64_zero, StringValue = [], Type = IntType\<rparr>"
    by (rule UnmarshalJSON_Int)
  moreover have "sint (word_of_int ?v :: int64) = ?v"
    using a by (simp add: sint_int64_of_int)
  ultimately show "\<exists>n. UnmarshalJSON b =
      Inr \<lparr>IntValue = n, FloatValue = f64_zero, StringValue = [], Type = IntType\<rparr> \<and>
      sint n = ?v"
    by blast
next
  let ?v = "int_literal_value b"
  assume a: "is_int_literal b \<and> (?v < - (2 ^ 63) \<or> 2 ^ 63 \<le> ?v)"
  have i: "isl (ParseInt b)"
  proof (cases "ParseInt b")
    case (Inl e)
    then show ?thesis by simp
  next
    case (Inr w)
    then have "- (2 ^ 63) \<le> ?v \<and> ?v < 2 ^ 63"
      by (simp add: ParseInt_Inr)
    with a show ?thesis by linarith
  qed
  show "\<exists>v. UnmarshalJSON b = Inr v \<and> Type v \<noteq> IntType \<and> IntValue v = 0"
  proof (cases "ParseFloat b")
    case (Inl e)
    then have "isl (ParseFloat b)" by simp
    with i have "UnmarshalJSON b =
        Inr \<lparr>IntValue = 0, FloatValue = f64_zero, StringValue = Trim b [CHR 0x22],
             Type = StringType\<rparr>"
      by (rule UnmarshalJSON_String)
    then show ?thesis by simp
  next
    case (Inr f)
    with i have "UnmarshalJSON b =
        Inr \<lparr>IntValue = 0, FloatValue = f, StringValue = [], Type = FloatType\<rparr>"
      by (rule UnmarshalJSON_Float)
    then show ?thesis by simp
  qed
qed

lemma literal_minus_42: "is_int_literal ''-42'' \<and> int_literal_value ''-42'' = - 42"
  by (simp add: is_int_literal_def int_literal_value_def digits_val_def digit_of_def is_digit_def)

lemma literal_below_int64:
  "is_int_literal ''-9223372036854775809'' \<and>
   int_literal_value ''-9223372036854775809'' = - 9223372036854775809"
  by (simp add: is_int_literal_def int_literal_value_def digits_val_def digit_of_def is_digit_def)

theorem int_literal_in_range_decodes_Integer_witness:
  "ParseInt ''-42'' = Inr (- 42) \<and> is_int_literal ''-42'' \<and> int_literal_value ''-42'' = - 42 \<and>
   UnmarshalJSON ''-42'' =
     Inr \<lparr>IntValue = - 42, FloatValue = f64_zero, StringValue = [], Type = IntType\<rparr> \<and>
   is_int_literal ''-9223372036854775809'' \<and>
   int_literal_value ''-9223372036854775809'' < - (2 ^ 63) \<and>
   (\<exists>v. UnmarshalJSON ''-9223372036854775809'' = Inr v \<and> Type v \<noteq> IntType \<and> IntValue v = 0)"
proof -
  have p: "ParseInt ''-42'' = Inr (- 42)"
    using literal_minus_42 ParseInt_Inr [of "''-42''" "- 42"] by simp
  from int_literal_in_range_decodes_Integer [of "''-42''"] p literal_minus_42
  have 1: "ParseInt ''-42'' = Inr (- 42) \<and> is_int_literal ''-42'' \<and>
      int_literal_value ''-42'' = - 42 \<and>
      UnmarshalJSON ''-42'' =
        Inr \<lparr>IntValue = - 42, FloatValue = f64_zero, StringValue = [], Type = IntType\<rparr>"
    by simp
  have b: "int_literal_value ''-9223372036854775809'' < - (2 ^ 63)"
    using literal_below_int64 by simp
  with int_literal_in_range_decodes_Integer [of "''-9223372036854775809''"] literal_below_int64
  have 2: "\<exists>v. UnmarshalJSON ''-9223372036854775809'' = Inr v \<and> Type v \<noteq> IntType \<and>
      IntValue v = 0"
    by blast
  from 1 2 b literal_below_int64 show ?thesis by blast
qed

subsection \<open>What strings.Trim leaves of a token\<close>

lemma Trim_Nil: "Trim [] cs = []"
  by (simp add: Trim_def)

lemma Trim_quote_Cons: "Trim (quote # s) [quote] = Trim s [quote]"
  by (simp add: Trim_def)

lemma dropWhile_all: "\<forall>c \<in> set s. P c \<Longrightarrow> dropWhile P s = []"
  by (induction s) simp_all

lemma dropWhile_hd: "s = [] \<or> \<not> P (hd s) \<Longrightarrow> dropWhile P s = s"
  by (cases s) auto

lemma Trim_snoc_quote: "Trim (s @ [quote]) [quote] = Trim s [quote]"
proof (cases "\<forall>c \<in> set s. c \<in> set [quote]")
  case True
  then have "dropWhile (\<lambda>c. c \<in> set [quote]) s = []"
    by (rule dropWhile_all)
  moreover from True have "\<forall>c \<in> set (s @ [quote]). c \<in> set [quote]" by simp
  then have "dropWhile (\<lambda>c. c \<in> set [quote]) (s @ [quote]) = []"
    by (rule dropWhile_all)
  ultimately show ?thesis by (simp only: Trim_def)
next
  case False
  then obtain c where "c \<in> set s" and "\<not> c \<in> set [quote]" by blast
  then have "dropWhile (\<lambda>c. c \<in> set [quote]) (s @ [quote]) =
      dropWhile (\<lambda>c. c \<in> set [quote]) s @ [quote]"
    by (rule dropWhile_append1)
  then show ?thesis by (simp add: Trim_def)
qed

lemma Trim_unquoted: "unquoted s \<Longrightarrow> Trim s [quote] = s"
proof -
  assume u: "unquoted s"
  let ?P = "\<lambda>c. c \<in> set [quote]"
  from u have "s = [] \<or> \<not> ?P (hd s)"
    by (auto simp: unquoted_def)
  then have 1: "dropWhile ?P s = s" by (rule dropWhile_hd)
  from u have "rev s = [] \<or> \<not> ?P (hd (rev s))"
    by (auto simp: unquoted_def hd_rev)
  then have 2: "dropWhile ?P (rev s) = rev s" by (rule dropWhile_hd)
  show ?thesis by (simp only: Trim_def 1 2 rev_rev_ident)
qed

lemma Trim_strip_one_quote: "Trim s [quote] = Trim (strip_one_quote s) [quote]"
proof -
  define s1 where "s1 = (if s \<noteq> [] \<and> hd s = quote then tl s else s)"
  have 1: "Trim s [quote] = Trim s1 [quote]"
    unfolding s1_def by (cases s) (auto simp: Trim_quote_Cons)
  have 2: "Trim s1 [quote] = Trim (if s1 \<noteq> [] \<and> last s1 = quote then butlast s1 else s1) [quote]"
  proof (cases "s1 \<noteq> [] \<and> last s1 = quote")
    case True
    then have "butlast s1 @ [quote] = s1"
      using append_butlast_last_id [of s1] by simp
    then have "Trim s1 [quote] = Trim (butlast s1) [quote]"
      using Trim_snoc_quote [of "butlast s1"] by simp
    with True show ?thesis by simp
  next
    case False
    then show ?thesis by auto
  qed
  have "strip_one_quote s = (if s1 \<noteq> [] \<and> last s1 = quote then butlast s1 else s1)"
    by (simp only: strip_one_quote_def Let_def s1_def)
  with 1 2 show ?thesis by simp
qed

lemma all_quote_replicate: "\<forall>c \<in> set s. c \<in> set [quote] \<Longrightarrow> s = replicate (length s) quote"
  by (induction s) simp_all

lemma Trim_decompose:
  "\<exists>i j. s = replicate i quote @ Trim s [quote] @ replicate j quote"
proof -
  let ?P = "\<lambda>c. c \<in> set [quote]"
  let ?m = "dropWhile ?P s"
  let ?t = "takeWhile ?P (rev ?m)"
  have "\<forall>c \<in> set (takeWhile ?P s). c \<in> set [quote]"
    by (blast dest: set_takeWhileD)
  then have 1: "takeWhile ?P s = replicate (length (takeWhile ?P s)) quote"
    by (rule all_quote_replicate)
  have "\<forall>c \<in> set (rev ?t). c \<in> set [quote]"
    by (auto dest: set_takeWhileD)
  then have 2: "rev ?t = replicate (length (rev ?t)) quote"
    by (rule all_quote_replicate)
  have "rev (?t @ dropWhile ?P (rev ?m)) = ?m"
    by (simp only: takeWhile_dropWhile_id rev_rev_ident)
  then have 3: "Trim s [quote] @ rev ?t = ?m"
    by (simp only: rev_append Trim_def)
  have "s = takeWhile ?P s @ ?m"
    by (simp only: takeWhile_dropWhile_id)
  also have "\<dots> = takeWhile ?P s @ Trim s [quote] @ rev ?t"
    by (simp only: 3)
  finally have A: "s = takeWhile ?P s @ Trim s [quote] @ rev ?t" .
  from 1 obtain i where i: "takeWhile ?P s = replicate i quote" by (rule that)
  from 2 obtain j where j: "rev ?t = replicate j quote" by (rule that)
  from A have "s = replicate i quote @ Trim s [quote] @ replicate j quote"
    by (simp only: i j)
  then show ?thesis by blast
qed

lemma last_dropWhile_nonempty: "dropWhile P xs \<noteq> [] \<Longrightarrow> last (dropWhile P xs) = last xs"
  by (induction xs) (auto split: if_splits)

lemma Trim_is_unquoted: "unquoted (Trim s [quote])"
proof -
  define P where "P = (\<lambda>c. c \<in> set [quote])"
  define m where "m = dropWhile P s"
  define r where "r = dropWhile P (rev m)"
  have T: "Trim s [quote] = rev r"
    by (simp only: Trim_def r_def m_def P_def)
  have notP: "c \<noteq> quote" if "\<not> P c" for c
    using that by (simp add: P_def)
  show ?thesis
  proof (cases "r = []")
    case True
    with T show ?thesis by (simp add: unquoted_def)
  next
    case False
    then have "\<not> P (hd r)"
      unfolding r_def by (rule hd_dropWhile)
    then have h: "hd r \<noteq> quote" by (rule notP)
    have m: "m \<noteq> []"
    proof
      assume "m = []"
      then have "r = []" by (simp add: r_def)
      with False show False by simp
    qed
    then have "\<not> P (hd m)"
      unfolding m_def by (rule hd_dropWhile)
    then have hm: "hd m \<noteq> quote" by (rule notP)
    have "last r = last (rev m)"
      using False unfolding r_def by (rule last_dropWhile_nonempty)
    also have "\<dots> = hd m"
      using m by (simp add: last_rev)
    finally have l: "last r \<noteq> quote" using hm by simp
    have "hd (rev r) = last r" using False by (simp add: hd_rev)
    moreover have "last (rev r) = hd r" using False by (simp add: last_rev)
    ultimately show ?thesis
      using False h l unfolding T by (simp add: unquoted_def)
  qed
qed

text \<open>
  C5, as the specification has it, fails: the JSON string token \<open>"a\""\<close> parses as
  neither number, and stripping one quote at each end leaves \<open>a\"\<close>, but the decoder
  stores \<open>a\\<close>: \<open>strings.Trim\<close> removes every trailing quote, also the escaped one.
\<close>

theorem string_value_strips_all_quotes_counterexample:
  "ParseInt [CHR 0x22, CHR ''a'', CHR 0x5C, CHR 0x22, CHR 0x22] = Inl ErrSyntax \<and>
   ParseFloat [CHR 0x22, CHR ''a'', CHR 0x5C, CHR 0x22, CHR 0x22] = Inl ErrSyntax \<and>
   UnmarshalJSON [CHR 0x22, CHR ''a'', CHR 0x5C, CHR 0x22, CHR 0x22] =
     Inr \<lparr>IntValue = 0, FloatValue = f64_zero, StringValue = [CHR ''a'', CHR 0x5C],
          Type = StringType\<rparr> \<and>
   strip_one_quote [CHR 0x22, CHR ''a'', CHR 0x5C, CHR 0x22, CHR 0x22] =
     [CHR ''a'', CHR 0x5C, CHR 0x22]"
  by (simp add: UnmarshalJSON_def Trim_def strip_one_quote_def quote_def parse_eval)

text \<open>
  C5, amended: a token that parses neither as a 64-bit integer nor as a 64-bit float
  decodes to the String variant, and its value is the token with every leading and
  every trailing double quote removed: the token is that value between two runs of
  quotes, and the value neither begins nor ends with a quote. Whenever stripping one
  quote at each end already leaves such a text, the value is that text.
\<close>

theorem unparsed_token_decodes_String:
  assumes "isl (ParseInt b)" and "isl (ParseFloat b)"
  shows "\<exists>v. UnmarshalJSON b = Inr v \<and> Type v = StringType \<and>
           (\<exists>i j. b = replicate i quote @ StringValue v @ replicate j quote) \<and>
           unquoted (StringValue v) \<and>
           (unquoted (strip_one_quote b) \<longrightarrow> StringValue v = strip_one_quote b)"
proof -
  let ?v = "\<lparr>IntValue = 0, FloatValue = f64_zero,
             StringValue = Trim b [quote], Type = StringType\<rparr>"
  have "UnmarshalJSON b = Inr ?v"
    using assms by (simp add: UnmarshalJSON_String quote_def)
  moreover have "\<exists>i j. b = replicate i quote @ StringValue ?v @ replicate j quote"
    using Trim_decompose [of b] by simp
  moreover have "unquoted (StringValue ?v)"
    by (simp add: Trim_is_unquoted)
  moreover have "StringValue ?v = strip_one_quote b" if "unquoted (strip_one_quote b)"
    using that Trim_strip_one_quote [of b] by (simp add: Trim_unquoted)
  ultimately show ?thesis
    by (intro exI [of _ ?v]) simp
qed

theorem unparsed_token_decodes_String_witness:
  "isl (ParseInt [CHR 0x22, CHR ''o'', CHR ''k'', CHR 0x22]) \<and>
   isl (ParseFloat [CHR 0x22, CHR ''o'', CHR ''k'', CHR 0x22]) \<and>
   unquoted (strip_one_quote [CHR 0x22, CHR ''o'', CHR ''k'', CHR 0x22]) \<and>
   (\<exists>v. UnmarshalJSON [CHR 0x22, CHR ''o'', CHR ''k'', CHR 0x22] = Inr v \<and>
        Type v = StringType \<and> StringValue v = ''ok'')"
proof -
  let ?b = "[CHR 0x22, CHR ''o'', CHR ''k'', CHR 0x22]"
  have i: "isl (ParseInt ?b)" by (simp add: parse_eval)
  have f: "isl (ParseFloat ?b)" by (simp add: parse_eval)
  have s: "strip_one_quote ?b = ''ok''" by (simp add: strip_one_quote_def quote_def)
  have u: "unquoted ''ok''" by (simp add: unquoted_def quote_def)
  from unparsed_token_decodes_String [OF i f] s u i f show ?thesis by auto
qed

subsection \<open>The five loops, one after the other\<close>

lemma records_of_Nil [simp]: "records_of [] = []"
  by (simp add: records_of_def)

lemma records_of_Cons_Metric [simp]: "records_of (Metric r # cs) = r # records_of cs"
  by (simp add: records_of_def)

lemma records_of_Cons_AddError [simp]: "records_of (AddError e # cs) = records_of cs"
  by (simp add: records_of_def)

lemma records_of_append [simp]: "records_of (xs @ ys) = records_of xs @ records_of ys"
  by (simp add: records_of_def)

lemma errors_of_Nil [simp]: "errors_of [] = []"
  by (simp add: errors_of_def)

lemma errors_of_Cons_Metric [simp]: "errors_of (Metric r # cs) = errors_of cs"
  by (simp add: errors_of_def)

lemma errors_of_Cons_AddError [simp]: "errors_of (AddError e # cs) = e # errors_of cs"
  by (simp add: errors_of_def)

lemma errors_of_append [simp]: "errors_of (xs @ ys) = errors_of xs @ errors_of ys"
  by (simp add: errors_of_def)

lemma errors_of_map_Metric [simp]: "errors_of (map Metric rs) = []"
  by (induction rs) simp_all

lemma records_of_map_Metric [simp]: "records_of (map Metric rs) = rs"
  by (induction rs) simp_all

lemma gauge_calls_Metric: "gauge_calls now gs = map Metric (records_of (gauge_calls now gs))"
  by (induction now gs rule: gauge_calls.induct) simp_all

lemma gauge_calls_names:
  "map measurement (records_of (gauge_calls now gs)) = map fst (filter numeric_gauge gs)"
  by (induction now gs rule: gauge_calls.induct)
    (simp_all add: numeric_gauge_def gauge_int_record_def gauge_float_record_def)

lemma gauge_record_fields:
  "dom (field_map (gauge_int_record now name g)) = {''value''}"
  "dom (field_map (gauge_float_record now name g)) = {''value''}"
  by (auto simp: gauge_int_record_def gauge_float_record_def split: if_splits)

lemma gauge_calls_record:
  "r \<in> set (records_of (gauge_calls now gs)) \<Longrightarrow>
   dom (field_map r) = {''value''} \<and> selector r = AddGauge \<and> tags r = None \<and> timestamp r = now"
proof (induction now gs rule: gauge_calls.induct)
  case (1 now)
  then show ?case by simp
next
  case (2 now name g gs)
  have i: "selector (gauge_int_record now name g) = AddGauge \<and>
      tags (gauge_int_record now name g) = None \<and> timestamp (gauge_int_record now name g) = now"
    by (simp add: gauge_int_record_def)
  have f: "selector (gauge_float_record now name g) = AddGauge \<and>
      tags (gauge_float_record now name g) = None \<and>
      timestamp (gauge_float_record now name g) = now"
    by (simp add: gauge_float_record_def)
  from 2 consider "r = gauge_int_record now name g" | "r = gauge_float_record now name g"
    | "r \<in> set (records_of (gauge_calls now gs))"
    by (auto split: if_splits)
  then show ?case
  proof cases
    case 1
    with i gauge_record_fields(1) [of now name g] show ?thesis by simp
  next
    case 2
    with f gauge_record_fields(2) [of now name g] show ?thesis by simp
  next
    case 3
    then show ?thesis by (rule "2.IH")
  qed
qed

lemma counter_calls_Metric: "counter_calls now cs = map Metric (records_of (counter_calls now cs))"
  by (induction now cs rule: counter_calls.induct) simp_all

lemma counter_calls_names: "map measurement (records_of (counter_calls now cs)) = map fst cs"
  by (induction now cs rule: counter_calls.induct) (simp_all add: counter_record_def)

lemma counter_record_fields: "dom (field_map (counter_record now name c)) = {''count''}"
  by (auto simp: counter_record_def split: if_splits)

lemma counter_calls_record:
  "r \<in> set (records_of (counter_calls now cs)) \<Longrightarrow>
   dom (field_map r) = {''count''} \<and> selector r = AddCounter \<and> tags r = None \<and> timestamp r = now"
proof (induction now cs rule: counter_calls.induct)
  case (1 now)
  then show ?case by simp
next
  case (2 now name c cs)
  have "selector (counter_record now name c) = AddCounter \<and>
      tags (counter_record now name c) = None \<and> timestamp (counter_record now name c) = now"
    by (simp add: counter_record_def)
  with 2 counter_record_fields [of now name c] show ?case
    by (cases "r = counter_record now name c") simp_all
qed

lemma histogram_calls_Metric:
  "histogram_calls now hs = map Metric (records_of (histogram_calls now hs))"
  by (induction now hs rule: histogram_calls.induct) simp_all

lemma histogram_calls_names: "map measurement (records_of (histogram_calls now hs)) = map fst hs"
  by (induction now hs rule: histogram_calls.induct) (simp_all add: histogram_record_def)

lemma histogram_record_fields:
  "dom (field_map (histogram_record now name h)) =
     {''count'', ''max'', ''mean'', ''min'', ''p50'', ''p75'', ''p95'', ''p98'', ''p99'',
      ''p999'', ''stddev''}"
  by (auto simp: histogram_record_def split: if_splits)

lemma histogram_calls_record:
  "r \<in> set (records_of (histogram_calls now hs)) \<Longrightarrow>
   dom (field_map r) =
     {''count'', ''max'', ''mean'', ''min'', ''p50'', ''p75'', ''p95'', ''p98'', ''p99'',
      ''p999'', ''stddev''} \<and>
   selector r = AddHistogram \<and> tags r = None \<and> timestamp r = now"
proof (induction now hs rule: histogram_calls.induct)
  case (1 now)
  then show ?case by simp
next
  case (2 now name h hs)
  have "selector (histogram_record now name h) = AddHistogram \<and>
      tags (histogram_record now name h) = None \<and> timestamp (histogram_record now name h) = now"
    by (simp add: histogram_record_def)
  with 2 histogram_record_fields [of now name h] show ?case
    by (cases "r = histogram_record now name h") simp_all
qed

lemma meter_calls_Metric: "meter_calls now ms = map Metric (records_of (meter_calls now ms))"
  by (induction now ms rule: meter_calls.induct) simp_all

lemma meter_calls_names: "map measurement (records_of (meter_calls now ms)) = map fst ms"
  by (induction now ms rule: meter_calls.induct) (simp_all add: meter_record_def)

lemma meter_record_fields:
  "dom (field_map (meter_record now name m)) =
     {''count'', ''m15_rate'', ''m1_rate'', ''m5_rate'', ''mean_rate''}"
  by (auto simp: meter_record_def split: if_splits)

lemma meter_calls_record:
  "r \<in> set (records_of (meter_calls now ms)) \<Longrightarrow>
   dom (field_map r) = {''count'', ''m15_rate'', ''m1_rate'', ''m5_rate'', ''mean_rate''} \<and>
   selector r = AddHistogram \<and> tags r = None \<and> timestamp r = now"
proof (induction now ms rule: meter_calls.induct)
  case (1 now)
  then show ?case by simp
next
  case (2 now name m ms)
  have "selector (meter_record now name m) = AddHistogram \<and>
      tags (meter_record now name m) = None \<and> timestamp (meter_record now name m) = now"
    by (simp add: meter_record_def)
  with 2 meter_record_fields [of now name m] show ?case
    by (cases "r = meter_record now name m") simp_all
qed

lemma timer_calls_Metric: "timer_calls now ts = map Metric (records_of (timer_calls now ts))"
  by (induction now ts rule: timer_calls.induct) simp_all

lemma timer_calls_names: "map measurement (records_of (timer_calls now ts)) = map fst ts"
  by (induction now ts rule: timer_calls.induct) (simp_all add: timer_record_def)

lemma timer_record_fields:
  "dom (field_map (timer_record now name t)) =
     {''count'', ''max'', ''mean'', ''min'', ''p50'', ''p75'', ''p95'', ''p98'', ''p99'',
      ''p999'', ''stddev'', ''m15_rate'', ''m1_rate'', ''m5_rate'', ''mean_rate''}"
  by (auto simp: timer_record_def split: if_splits)

lemma timer_calls_record:
  "r \<in> set (records_of (timer_calls now ts)) \<Longrightarrow>
   dom (field_map r) =
     {''count'', ''max'', ''mean'', ''min'', ''p50'', ''p75'', ''p95'', ''p98'', ''p99'',
      ''p999'', ''stddev'', ''m15_rate'', ''m1_rate'', ''m5_rate'', ''mean_rate''} \<and>
   selector r = AddFields \<and> tags r = None \<and> timestamp r = now"
proof (induction now ts rule: timer_calls.induct)
  case (1 now)
  then show ?case by simp
next
  case (2 now name t ts)
  have "selector (timer_record now name t) = AddFields \<and>
      tags (timer_record now name t) = None \<and> timestamp (timer_record now name t) = now"
    by (simp add: timer_record_def)
  with 2 timer_record_fields [of now name t] show ?case
    by (cases "r = timer_record now name t") simp_all
qed

lemma normalize_records:
  "records_of (normalizer now doc) =
     records_of (gauge_calls now (Gauges doc)) @ records_of (counter_calls now (Counters doc)) @
     records_of (histogram_calls now (Histograms doc)) @
     records_of (meter_calls now (Meters doc)) @ records_of (timer_calls now (Timers doc))"
  by (simp add: normalizer_def)

lemma normalize_Metric: "normalizer now doc = map Metric (records_of (normalizer now doc))"
proof -
  have "map Metric (records_of (normalizer now doc)) =
      map Metric (records_of (gauge_calls now (Gauges doc))) @
      map Metric (records_of (counter_calls now (Counters doc))) @
      map Metric (records_of (histogram_calls now (Histograms doc))) @
      map Metric (records_of (meter_calls now (Meters doc))) @
      map Metric (records_of (timer_calls now (Timers doc)))"
    by (simp only: normalize_records map_append)
  also have "\<dots> = normalizer now doc"
    unfolding normalizer_def
    by (simp only: gauge_calls_Metric [symmetric] counter_calls_Metric [symmetric]
        histogram_calls_Metric [symmetric] meter_calls_Metric [symmetric]
        timer_calls_Metric [symmetric])
  finally show ?thesis by (rule sym)
qed

lemma normalize_errors: "errors_of (normalizer now doc) = []"
  using normalize_Metric [of now doc] errors_of_map_Metric by metis

lemma normalize_timestamp:
  "r \<in> set (records_of (normalizer now doc)) \<Longrightarrow> timestamp r = now"
  unfolding normalize_records
  using gauge_calls_record counter_calls_record histogram_calls_record meter_calls_record
    timer_calls_record
  by (auto simp only: set_append Un_iff)



text \<open>
  C9: the records of the meter loop reach the accumulator through \<open>AddHistogram\<close>, the
  method the histogram loop uses; the timer loop uses \<open>AddFields\<close>, the gauge loop
  \<open>AddGauge\<close> and the counter loop \<open>AddCounter\<close>. Each loop makes one call per entry
  (the gauge loop one per numeric gauge), so none of this holds vacuously.
\<close>

theorem meters_share_the_histogram_method:
  "records_of (normalizer now doc) =
     records_of (gauge_calls now (Gauges doc)) @ records_of (counter_calls now (Counters doc)) @
     records_of (histogram_calls now (Histograms doc)) @
     records_of (meter_calls now (Meters doc)) @ records_of (timer_calls now (Timers doc)) \<and>
   map measurement (records_of (gauge_calls now (Gauges doc))) =
     map fst (filter numeric_gauge (Gauges doc)) \<and>
   map measurement (records_of (counter_calls now (Counters doc))) = map fst (Counters doc) \<and>
   map measurement (records_of (histogram_calls now (Histograms doc))) =
     map fst (Histograms doc) \<and>
   map measurement (records_of (meter_calls now (Meters doc))) = map fst (Meters doc) \<and>
   map measurement (records_of (timer_calls now (Timers doc))) = map fst (Timers doc) \<and>
   (\<forall>r \<in> set (records_of (gauge_calls now (Gauges doc))). selector r = AddGauge) \<and>
   (\<forall>r \<in> set (records_of (counter_calls now (Counters doc))). selector r = AddCounter) \<and>
   (\<forall>r \<in> set (records_of (histogram_calls now (Histograms doc))). selector r = AddHistogram) \<and>
   (\<forall>r \<in> set (records_of (meter_calls now (Meters doc))). selector r = AddHistogram) \<and>
   (\<forall>r \<in> set (records_of (timer_calls now (Timers doc))). selector r = AddFields)"
proof (intro conjI ballI)
  show "records_of (normalizer now doc) =
      records_of (gauge_calls now (Gauges doc)) @
      records_of (counter_calls now (Counters doc)) @
      records_of (histogram_calls now (Histograms doc)) @
      records_of (meter_calls now (Meters doc)) @ records_of (timer_calls now (Timers doc))"
    by (rule normalize_records)
  show "map measurement (records_of (gauge_calls now (Gauges doc))) =
      map fst (filter numeric_gauge (Gauges doc))"
    by (rule gauge_calls_names)
  show "map measurement (records_of (counter_calls now (Counters doc))) =
      map fst (Counters doc)"
    by (rule counter_calls_names)
  show "map measurement (records_of (histogram_calls now (Histograms doc))) =
      map fst (Histograms doc)"
    by (rule histogram_calls_names)
  show "map measurement (records_of (meter_calls now (Meters doc))) = map fst (Meters doc)"
    by (rule meter_calls_names)
  show "map measurement (records_of (timer_calls now (Timers doc))) = map fst (Timers doc)"
    by (rule timer_calls_names)
next
  fix r
  assume "r \<in> set (records_of (gauge_calls now (Gauges doc)))"
  then show "selector r = AddGauge"
    by (simp add: gauge_calls_record)
next
  fix r
  assume "r \<in> set (records_of (counter_calls now (Counters doc)))"
  then show "selector r = AddCounter"
    by (simp add: counter_calls_record)
next
  fix r
  assume "r \<in> set (records_of (histogram_calls now (Histograms doc)))"
  then show "selector r = AddHistogram"
    by (simp add: histogram_calls_record)
next
  fix r
  assume "r \<in> set (records_of (meter_calls now (Meters doc)))"
  then show "selector r = AddHistogram"
    by (simp add: meter_calls_record)
next
  fix r
  assume "r \<in> set (records_of (timer_calls now (Timers doc)))"
  then show "selector r = AddFields"
    by (simp add: timer_calls_record)
qed

theorem meters_share_the_histogram_method_witness:
  "meter_record 5 ''requests.rate''
       \<lparr>m_Count = 3, m_M15Rate = f64_zero, m_M1Rate = f64_zero, m_M5Rate = f64_zero,
        m_MeanRate = f64_zero, m_Units = ''events/second''\<rparr>
     \<in> set (records_of (meter_calls 5 (Meters example_doc))) \<and>
   selector (meter_record 5 ''requests.rate''
       \<lparr>m_Count = 3, m_M15Rate = f64_zero, m_M1Rate = f64_zero, m_M5Rate = f64_zero,
        m_MeanRate = f64_zero, m_Units = ''events/second''\<rparr>) = AddHistogram"
proof -
  note T = meters_share_the_histogram_method [of 5 example_doc]
  have m: "meter_record 5 ''requests.rate''
        \<lparr>m_Count = 3, m_M15Rate = f64_zero, m_M1Rate = f64_zero, m_M5Rate = f64_zero,
         m_MeanRate = f64_zero, m_Units = ''events/second''\<rparr>
      \<in> set (records_of (meter_calls 5 (Meters example_doc)))"
    by (simp add: example_doc_def)
  from T have "\<forall>r \<in> set (records_of (meter_calls 5 (Meters example_doc))).
      selector r = AddHistogram"
    by (elim conjE) assumption
  from this m have "selector (meter_record 5 ''requests.rate''
        \<lparr>m_Count = 3, m_M15Rate = f64_zero, m_M1Rate = f64_zero, m_M5Rate = f64_zero,
         m_MeanRate = f64_zero, m_Units = ''events/second''\<rparr>) = AddHistogram"
    by (rule bspec)
  with m show ?thesis by (intro conjI)
qed

subsection \<open>One endpoint's pipeline\<close>

lemma DecodeJSONMetrics_eq: "DecodeJSONMetrics E r = json_Decode E r"
  by (cases "json_Decode E r") (simp add: DecodeJSONMetrics_def split: option.splits)

lemma gatherURL_no_client: "client d = None \<Longrightarrow> gatherURL E d i url = Crashed"
  by (simp add: gatherURL_def)

lemma gatherURL_fetch_error:
  "client d = Some c \<Longrightarrow> client_Get E c i url = Inl err \<Longrightarrow>
   gatherURL E d i url = Done [] (Some err)"
  by (simp add: gatherURL_def)

lemma gatherURL_decode_error:
  "client d = Some c \<Longrightarrow> client_Get E c i url = Inr body \<Longrightarrow>
   DecodeJSONMetrics E body = (doc, Some err) \<Longrightarrow>
   gatherURL E d i url = Done [] (Some err)"
  by (simp add: gatherURL_def)

lemma gatherURL_success:
  "client d = Some c \<Longrightarrow> client_Get E c i url = Inr body \<Longrightarrow>
   DecodeJSONMetrics E body = (doc, None) \<Longrightarrow>
   gatherURL E d i url = Done (normalizer (time_Now E i 0) doc) None"
  by (simp add: gatherURL_def)

lemma gatherURL_Done:
  "gatherURL E d i url = Done calls err \<Longrightarrow>
   calls = [] \<or> (\<exists>doc. calls = normalizer (time_Now E i 0) doc \<and> err = None)"
  by (auto simp: gatherURL_def Let_def split: option.splits sum.splits prod.splits)

text \<open>
  C7: every record that one endpoint's pipeline produces in one pass carries the same
  timestamp, the clock reading the pipeline took on entry, before its HTTP request
  (step 0 of goroutine \<open>i\<close>); it is taken per endpoint, so the records of another
  goroutine carry that goroutine's own reading.
\<close>

theorem one_timestamp_per_endpoint:
  assumes "gatherURL E d i url = Done calls err"
  shows "\<forall>r \<in> set (records_of calls). timestamp r = time_Now E i 0"
proof
  fix r
  assume r: "r \<in> set (records_of calls)"
  from assms consider "calls = []"
    | doc where "calls = normalizer (time_Now E i 0) doc"
    using gatherURL_Done by blast
  then show "timestamp r = time_Now E i 0"
  proof cases
    case 1
    with r show ?thesis by simp
  next
    case 2
    with r show ?thesis by (simp add: normalize_timestamp)
  qed
qed

lemma example_fetch:
  "gatherURL example_env
     (example_plugin\<lparr>client := Some \<lparr>Transport = \<lparr>ResponseHeaderTimeout = 5000000000,
                                                    TLSClientConfig = ()\<rparr>,
                                       client_Timeout = 5000000000\<rparr>\<rparr>) i ''http://a/metrics'' =
   Done (normalizer (1000 * i) example_doc) None"
  by (simp add: gatherURL_def example_env_def DecodeJSONMetrics_def)

lemma example_counter_record:
  "counter_record now ''requests.total'' \<lparr>c_Count = 42\<rparr>
     \<in> set (records_of (normalizer now example_doc))"
  by (simp add: normalizer_def example_doc_def)

theorem one_timestamp_per_endpoint_witness:
  "gatherURL example_env
     (example_plugin\<lparr>client := Some \<lparr>Transport = \<lparr>ResponseHeaderTimeout = 5000000000,
                                                    TLSClientConfig = ()\<rparr>,
                                       client_Timeout = 5000000000\<rparr>\<rparr>) 1 ''http://a/metrics'' =
     Done (normalizer 1000 example_doc) None \<and>
   counter_record 1000 ''requests.total'' \<lparr>c_Count = 42\<rparr>
     \<in> set (records_of (normalizer 1000 example_doc)) \<and>
   timestamp (counter_record 1000 ''requests.total'' \<lparr>c_Count = 42\<rparr>) =
     time_Now example_env 1 0 \<and>
   time_Now example_env 1 0 \<noteq> time_Now example_env 1 1 \<and>
   time_Now example_env 1 0 \<noteq> time_Now example_env 0 0"
proof -
  have f: "gatherURL example_env
     (example_plugin\<lparr>client := Some \<lparr>Transport = \<lparr>ResponseHeaderTimeout = 5000000000,
                                                    TLSClientConfig = ()\<rparr>,
                                       client_Timeout = 5000000000\<rparr>\<rparr>) 1 ''http://a/metrics'' =
     Done (normalizer 1000 example_doc) None"
    using example_fetch [of 1] by simp
  have m: "counter_record 1000 ''requests.total'' \<lparr>c_Count = 42\<rparr>
      \<in> set (records_of (normalizer 1000 example_doc))"
    by (rule example_counter_record)
  from one_timestamp_per_endpoint [OF f] m
  have "timestamp (counter_record 1000 ''requests.total'' \<lparr>c_Count = 42\<rparr>) =
      time_Now example_env 1 0"
    by (rule bspec)
  moreover have "time_Now example_env 1 0 \<noteq> time_Now example_env 1 1"
    "time_Now example_env 1 0 \<noteq> time_Now example_env 0 0"
    by (simp_all add: example_env_def)
  ultimately show ?thesis using f m by (intro conjI)
qed

text \<open>
  C8: a pass that finds the URL list empty is the pass with the one URL
  \<open>http://localhost:8081/metrics\<close>: the same outcomes, the same calls on the accumulator
  and the same plugin state afterwards, in which the list holds that URL.
\<close>

theorem empty_URLs_is_the_default_URL:
  "Gather E (d\<lparr>URLs := []\<rparr>) acc = Gather E (d\<lparr>URLs := [''http://localhost:8081/metrics'']\<rparr>) acc"
  by (simp add: Gather_def)

subsection \<open>The goroutines of a pass\<close>

lemma goroutine_calls_of: "client d = Some c \<Longrightarrow> goroutine E d i url = Some (calls_of E d i url)"
  by (auto simp: goroutine_def calls_of_def gatherURL_def Let_def
      split: gather_result.splits option.splits sum.splits prod.splits)

lemma goroutines_calls_of:
  assumes "client d = Some c"
  shows "map (\<lambda>(i, u). goroutine E d i u) ius = map (\<lambda>(i, u). Some (calls_of E d i u)) ius"
  using goroutine_calls_of [OF assms] by (induction ius) auto

lemma run_goroutines_client:
  assumes "client d = Some c"
  shows "run_goroutines E d acc =
    (\<lambda>zs. PassDone None d (acc @ zs)) `
      interleavings (map (\<lambda>(i, u). calls_of E d i u) (enumerate 0 (URLs d)))"
proof -
  let ?ius = "enumerate 0 (URLs d)"
  have rs: "map (\<lambda>(i, u). goroutine E d i u) ?ius = map (\<lambda>(i, u). Some (calls_of E d i u)) ?ius"
    using assms by (rule goroutines_calls_of)
  have "None \<notin> set (map (\<lambda>(i, u). Some (calls_of E d i u)) ?ius)"
    by auto
  moreover have "map the (map (\<lambda>(i, u). Some (calls_of E d i u)) ?ius) =
      map (\<lambda>(i, u). calls_of E d i u) ?ius"
    by (induction ?ius) auto
  ultimately show ?thesis
    unfolding run_goroutines_def Let_def rs by (simp only: if_False)
qed

lemma interleavings_nonempty: "concat xss \<in> interleavings xss"
proof (induction xss)
  case Nil
  show ?case by simp
next
  case (Cons xs xss)
  have "xs @ concat xss \<in> shuffles xs (concat xss)"
    by (induction xs) (auto simp: Cons_in_shuffles_iff)
  with Cons show ?case by auto
qed

lemma errors_of_Cons: "errors_of (c # cs) = errors_of [c] @ errors_of cs"
  by (cases c) simp_all

lemma records_of_Cons: "records_of (c # cs) = records_of [c] @ records_of cs"
  by (cases c) simp_all

lemma shuffles_errors:
  "zs \<in> shuffles xs ys \<Longrightarrow> mset (errors_of zs) = mset (errors_of xs) + mset (errors_of ys)"
proof (induction xs ys arbitrary: zs rule: shuffles.induct)
  case (1 ys)
  then show ?case by simp
next
  case (2 xs)
  then show ?case by simp
next
  case (3 x xs y ys)
  from "3.prems" consider zs' where "zs = x # zs'" "zs' \<in> shuffles xs (y # ys)"
    | zs' where "zs = y # zs'" "zs' \<in> shuffles (x # xs) ys"
    by auto
  then show ?case
  proof cases
    case 1
    from "3.IH"(1) [OF 1(2)] show ?thesis
      unfolding 1(1) errors_of_Cons [of x zs'] errors_of_Cons [of x xs] by simp
  next
    case 2
    from "3.IH"(2) [OF 2(2)] show ?thesis
      unfolding 2(1) errors_of_Cons [of y zs'] errors_of_Cons [of y ys] by simp
  qed
qed

lemma shuffles_records:
  "zs \<in> shuffles xs ys \<Longrightarrow> mset (records_of zs) = mset (records_of xs) + mset (records_of ys)"
proof (induction xs ys arbitrary: zs rule: shuffles.induct)
  case (1 ys)
  then show ?case by simp
next
  case (2 xs)
  then show ?case by simp
next
  case (3 x xs y ys)
  from "3.prems" consider zs' where "zs = x # zs'" "zs' \<in> shuffles xs (y # ys)"
    | zs' where "zs = y # zs'" "zs' \<in> shuffles (x # xs) ys"
    by auto
  then show ?case
  proof cases
    case 1
    from "3.IH"(1) [OF 1(2)] show ?thesis
      unfolding 1(1) records_of_Cons [of x zs'] records_of_Cons [of x xs] by simp
  next
    case 2
    from "3.IH"(2) [OF 2(2)] show ?thesis
      unfolding 2(1) records_of_Cons [of y zs'] records_of_Cons [of y ys] by simp
  qed
qed

lemma interleavings_errors:
  "zs \<in> interleavings xss \<Longrightarrow> mset (errors_of zs) = mset (concat (map errors_of xss))"
proof (induction xss arbitrary: zs)
  case Nil
  then show ?case by simp
next
  case (Cons xs xss)
  then obtain ys where "ys \<in> interleavings xss" "zs \<in> shuffles xs ys" by auto
  with Cons.IH [of ys] shuffles_errors [of zs xs ys] show ?case by simp
qed

lemma interleavings_records:
  "zs \<in> interleavings xss \<Longrightarrow> mset (records_of zs) = mset (concat (map records_of xss))"
proof (induction xss arbitrary: zs)
  case Nil
  then show ?case by simp
next
  case (Cons xs xss)
  then obtain ys where "ys \<in> interleavings xss" "zs \<in> shuffles xs ys" by auto
  with Cons.IH [of ys] shuffles_records [of zs xs ys] show ?case by simp
qed

lemma errors_of_calls_of:
  "errors_of (calls_of E d i url) =
     (case gatherURL E d i url of
        Done calls (Some err) \<Rightarrow> [''[url='' @ url @ '']: '' @ err]
      | _ \<Rightarrow> [])"
proof (cases "gatherURL E d i url")
  case Crashed
  then show ?thesis by (simp add: calls_of_def)
next
  case (Done calls err)
  from gatherURL_Done [OF Done] have "errors_of calls = []"
    by (auto simp: normalize_errors)
  with Done show ?thesis
    by (cases err) (simp_all add: calls_of_def)
qed

lemma url_errors_calls_of:
  "concat (map errors_of (map (\<lambda>(i, u). calls_of E d i u) (enumerate 0 (URLs d)))) =
     url_errors E d"
proof -
  have "concat (map errors_of (map (\<lambda>(i, u). calls_of E d i u) ius)) =
      concat (map (\<lambda>(i, url).
        case gatherURL E d i url of
          Done calls (Some err) \<Rightarrow> [''[url='' @ url @ '']: '' @ err]
        | _ \<Rightarrow> []) ius)" for ius
    by (induction ius) (auto simp: errors_of_calls_of)
  then show ?thesis by (simp only: url_errors_def)
qed

lemma Gather_cases:
  "Gather E d0 acc =
     (let d = (if URLs d0 = [] then d0\<lparr>URLs := [''http://localhost:8081/metrics'']\<rparr> else d0)
      in case client d of
           Some c \<Rightarrow> run_goroutines E d acc
         | None \<Rightarrow>
             (case GetTLSConfig E (SSLCert d) (SSLKey d) (SSLCA d) (InsecureSkipVerify d) of
                Inl err \<Rightarrow> {PassDone (Some err) d acc}
              | Inr tlsCfg \<Rightarrow>
                  run_goroutines E
                    (d\<lparr>client := Some \<lparr>Transport = \<lparr>ResponseHeaderTimeout = Timeout d,
                                                      TLSClientConfig = tlsCfg\<rparr>,
                                         client_Timeout = Timeout d\<rparr>\<rparr>) acc))"
  by (simp add: Gather_def Let_def split: option.splits)

lemma run_goroutines_outcome:
  assumes "client d = Some c" and "out \<in> run_goroutines E d acc"
  shows "\<exists>zs. out = PassDone None d (acc @ zs) \<and>
           zs \<in> interleavings (map (\<lambda>(i, u). calls_of E d i u) (enumerate 0 (URLs d)))"
  using assms(2) unfolding run_goroutines_client [OF assms(1)] by auto

lemma run_goroutines_nonempty:
  assumes "client d = Some c"
  shows "run_goroutines E d acc \<noteq> {}"
  unfolding run_goroutines_client [OF assms]
  using interleavings_nonempty by blast

subsection \<open>A pass\<close>

lemma run_goroutines_pass:
  assumes "client d = Some c" and "out \<in> run_goroutines E d acc"
  shows "\<exists>zs. out = PassDone None d (acc @ zs) \<and> mset (errors_of zs) = mset (url_errors E d)"
proof -
  from run_goroutines_outcome [OF assms] obtain zs where
    out: "out = PassDone None d (acc @ zs)" and
    zs: "zs \<in> interleavings (map (\<lambda>(i, u). calls_of E d i u) (enumerate 0 (URLs d)))"
    by blast
  from interleavings_errors [OF zs] have "mset (errors_of zs) = mset (url_errors E d)"
    by (simp only: url_errors_calls_of)
  with out show ?thesis by blast
qed

text \<open>
  C3: a pass always has an outcome and never panics. It returns an error exactly when
  the plugin has no client yet and \<open>GetTLSConfig\<close> fails; the error is that failure and
  the accumulator has received nothing, no goroutine having run. Otherwise it returns
  nil, the plugin holds a client, and the errors the accumulator received are, up to
  order, the errors of the per-URL pipelines, each behind its \<open>[url=...]\<close> prefix:
  whatever the requests and the decoder do, the pass itself does not fail.
\<close>

theorem Gather_fails_only_without_client:
  "Gather E d acc \<noteq> {} \<and>
   (\<forall>out \<in> Gather E d acc. \<exists>err d' acc'.
      out = PassDone err d' acc' \<and>
      (err \<noteq> None \<longleftrightarrow>
         client d = None \<and>
         isl (GetTLSConfig E (SSLCert d) (SSLKey d) (SSLCA d) (InsecureSkipVerify d))) \<and>
      (\<forall>e. err = Some e \<longrightarrow>
         GetTLSConfig E (SSLCert d) (SSLKey d) (SSLCA d) (InsecureSkipVerify d) = Inl e \<and>
         acc' = acc) \<and>
      (err = None \<longrightarrow>
         client d' \<noteq> None \<and>
         (\<exists>zs. acc' = acc @ zs \<and> mset (errors_of zs) = mset (url_errors E d'))))"
proof -
  define d1 where
    "d1 = (if URLs d = [] then d\<lparr>URLs := [''http://localhost:8081/metrics'']\<rparr> else d)"
  have same: "client d1 = client d" "SSLCert d1 = SSLCert d" "SSLKey d1 = SSLKey d"
    "SSLCA d1 = SSLCA d" "InsecureSkipVerify d1 = InsecureSkipVerify d"
    by (simp_all add: d1_def)
  let ?tls = "GetTLSConfig E (SSLCert d) (SSLKey d) (SSLCA d) (InsecureSkipVerify d)"
  have G: "Gather E d acc =
    (case client d of
       Some c \<Rightarrow> run_goroutines E d1 acc
     | None \<Rightarrow>
         (case ?tls of
            Inl err \<Rightarrow> {PassDone (Some err) d1 acc}
          | Inr tlsCfg \<Rightarrow>
              run_goroutines E
                (d1\<lparr>client := Some \<lparr>Transport = \<lparr>ResponseHeaderTimeout = Timeout d1,
                                                   TLSClientConfig = tlsCfg\<rparr>,
                                      client_Timeout = Timeout d1\<rparr>\<rparr>) acc))"
    unfolding Gather_cases Let_def d1_def [symmetric] same ..
  show ?thesis
  proof (cases "client d")
    case (Some c)
    then have g: "Gather E d acc = run_goroutines E d1 acc"
      unfolding G by simp
    from Some have c1: "client d1 = Some c" by (simp add: same)
    have "Gather E d acc \<noteq> {}"
      unfolding g using c1 by (rule run_goroutines_nonempty)
    moreover have "\<exists>err d' acc'.
        out = PassDone err d' acc' \<and>
        (err \<noteq> None \<longleftrightarrow> client d = None \<and> isl ?tls) \<and>
        (\<forall>e. err = Some e \<longrightarrow> ?tls = Inl e \<and> acc' = acc) \<and>
        (err = None \<longrightarrow>
           client d' \<noteq> None \<and>
           (\<exists>zs. acc' = acc @ zs \<and> mset (errors_of zs) = mset (url_errors E d')))"
      if "out \<in> Gather E d acc" for out
    proof -
      from that have "out \<in> run_goroutines E d1 acc" by (simp only: g)
      from run_goroutines_pass [OF c1 this] obtain zs where
        "out = PassDone None d1 (acc @ zs)" "mset (errors_of zs) = mset (url_errors E d1)"
        by blast
      with Some c1 show ?thesis by auto
    qed
    ultimately show ?thesis by blast
  next
    case None
    show ?thesis
    proof (cases ?tls)
      case (Inl e)
      with None have "Gather E d acc = {PassDone (Some e) d1 acc}"
        unfolding G by simp
      with None Inl show ?thesis by auto
    next
      case (Inr tlsCfg)
      define d2 where
        "d2 = d1\<lparr>client := Some \<lparr>Transport = \<lparr>ResponseHeaderTimeout = Timeout d1,
                                                  TLSClientConfig = tlsCfg\<rparr>,
                                     client_Timeout = Timeout d1\<rparr>\<rparr>"
      from None Inr have g: "Gather E d acc = run_goroutines E d2 acc"
        unfolding G d2_def by simp
      obtain c where c2: "client d2 = Some c" by (simp add: d2_def)
      have "Gather E d acc \<noteq> {}"
        unfolding g using c2 by (rule run_goroutines_nonempty)
      moreover have "\<exists>err d' acc'.
          out = PassDone err d' acc' \<and>
          (err \<noteq> None \<longleftrightarrow> client d = None \<and> isl ?tls) \<and>
          (\<forall>e. err = Some e \<longrightarrow> ?tls = Inl e \<and> acc' = acc) \<and>
          (err = None \<longrightarrow>
             client d' \<noteq> None \<and>
             (\<exists>zs. acc' = acc @ zs \<and> mset (errors_of zs) = mset (url_errors E d')))"
        if "out \<in> Gather E d acc" for out
      proof -
        from that have "out \<in> run_goroutines E d2 acc" by (simp only: g)
        from run_goroutines_pass [OF c2 this] obtain zs where
          "out = PassDone None d2 (acc @ zs)" "mset (errors_of zs) = mset (url_errors E d2)"
          by blast
        with Inr c2 show ?thesis by auto
      qed
      ultimately show ?thesis by blast
    qed
  qed
qed

lemma example_bad_tls_pass:
  "Gather example_bad_tls example_plugin [] =
     {PassDone (Some ''could not load keypair: open cert.pem: no such file or directory'')
        example_plugin []}"
  by (simp add: Gather_def example_bad_tls_def example_plugin_def)

theorem Gather_fails_only_without_client_witness:
  "PassDone (Some ''could not load keypair: open cert.pem: no such file or directory'')
      example_plugin []
     \<in> Gather example_bad_tls example_plugin [] \<and>
   client example_plugin = None \<and>
   GetTLSConfig example_bad_tls (SSLCert example_plugin) (SSLKey example_plugin)
       (SSLCA example_plugin) (InsecureSkipVerify example_plugin) =
     Inl ''could not load keypair: open cert.pem: no such file or directory''"
proof -
  let ?e = "''could not load keypair: open cert.pem: no such file or directory''"
  have m: "PassDone (Some ?e) example_plugin [] \<in> Gather example_bad_tls example_plugin []"
    by (simp only: example_bad_tls_pass insertI1)
  from Gather_fails_only_without_client [of example_bad_tls example_plugin "[]"]
  have "\<forall>out \<in> Gather example_bad_tls example_plugin []. \<exists>err d' acc'.
      out = PassDone err d' acc' \<and>
      (err \<noteq> None \<longleftrightarrow>
         client example_plugin = None \<and>
         isl (GetTLSConfig example_bad_tls (SSLCert example_plugin) (SSLKey example_plugin)
               (SSLCA example_plugin) (InsecureSkipVerify example_plugin))) \<and>
      (\<forall>e. err = Some e \<longrightarrow>
         GetTLSConfig example_bad_tls (SSLCert example_plugin) (SSLKey example_plugin)
           (SSLCA example_plugin) (InsecureSkipVerify example_plugin) = Inl e \<and>
         acc' = []) \<and>
      (err = None \<longrightarrow>
         client d' \<noteq> None \<and>
         (\<exists>zs. acc' = [] @ zs \<and> mset (errors_of zs) = mset (url_errors example_bad_tls d')))"
    by (rule conjunct2)
  from bspec [OF this m] have
    "client example_plugin = None \<and>
     GetTLSConfig example_bad_tls (SSLCert example_plugin) (SSLKey example_plugin)
       (SSLCA example_plugin) (InsecureSkipVerify example_plugin) = Inl ?e"
    by auto
  with m show ?thesis by (intro conjI) simp_all
qed

lemma Gather_returns_nil:
  assumes "PassDone None d' acc' \<in> Gather E d acc"
  shows "client d' \<noteq> None \<and> PassDone None d' acc' \<in> run_goroutines E d' acc"
proof -
  define d1 where
    "d1 = (if URLs d = [] then d\<lparr>URLs := [''http://localhost:8081/metrics'']\<rparr> else d)"
  note G = Gather_cases [of E d acc, unfolded Let_def, folded d1_def]
  show ?thesis
  proof (cases "client d1")
    case (Some c)
    with assms have m: "PassDone None d' acc' \<in> run_goroutines E d1 acc"
      unfolding G by simp
    from run_goroutines_outcome [OF Some m] have "d' = d1" by auto
    with Some m show ?thesis by simp
  next
    case None
    show ?thesis
    proof (cases "GetTLSConfig E (SSLCert d1) (SSLKey d1) (SSLCA d1) (InsecureSkipVerify d1)")
      case (Inl e)
      with None assms show ?thesis
        unfolding G by simp
    next
      case (Inr tlsCfg)
      define d2 where
        "d2 = d1\<lparr>client := Some \<lparr>Transport = \<lparr>ResponseHeaderTimeout = Timeout d1,
                                                  TLSClientConfig = tlsCfg\<rparr>,
                                     client_Timeout = Timeout d1\<rparr>\<rparr>"
      from None Inr assms have m: "PassDone None d' acc' \<in> run_goroutines E d2 acc"
        unfolding G d2_def by simp
      obtain c where c2: "client d2 = Some c" by (simp add: d2_def)
      from run_goroutines_outcome [OF c2 m] have "d' = d2" by auto
      with c2 m show ?thesis by simp
    qed
  qed
qed

lemma map_enumerate_upt:
  "map (\<lambda>(i, u). f i u) (enumerate 0 us) = map (\<lambda>j. f j (us ! j)) [0..<length us]"
  by (rule nth_equalityI) (simp_all add: nth_enumerate_eq)

lemma concat_only_at:
  "concat (map (\<lambda>j. if j = i then xs else []) [0..<n]) = (if i < n then xs else [])"
  by (induction n) auto

text \<open>
  C4: in a pass over any number of URLs in which every request succeeds, the body of
  URL \<open>i\<close> fails to decode and every other body decodes, the pipeline of URL \<open>i\<close>
  returns its decode error having made no call, although the decoder may have filled
  part of the document. What the accumulator receives in the pass is an interleaving of
  the one error of URL \<open>i\<close>, behind its \<open>[url=...]\<close> prefix, with the complete record
  sequences of the other URLs: exactly one error, and up to order the records of all
  the other documents.
\<close>

theorem decode_failure_is_isolated:
  assumes "PassDone None d' acc' \<in> Gather E d acc"
    and "client d' = Some c"
    and "i < length (URLs d')"
    and "\<forall>j < length (URLs d'). client_Get E c j (URLs d' ! j) = Inr (body j)"
    and "DecodeJSONMetrics E (body i) = (partial, Some e)"
    and "\<forall>j < length (URLs d'). j \<noteq> i \<longrightarrow> DecodeJSONMetrics E (body j) = (doc j, None)"
  shows "gatherURL E d' i (URLs d' ! i) = Done [] (Some e) \<and>
    (\<exists>zs. acc' = acc @ zs \<and>
       zs \<in> interleavings
         (map (\<lambda>j. if j = i then [AddError (''[url='' @ URLs d' ! i @ '']: '' @ e)]
                    else normalizer (time_Now E j 0) (doc j)) [0..<length (URLs d')]) \<and>
       errors_of zs = [''[url='' @ URLs d' ! i @ '']: '' @ e] \<and>
       mset (records_of zs) =
         mset (concat (map (\<lambda>j. if j = i then []
                                   else records_of (normalizer (time_Now E j 0) (doc j)))
                         [0..<length (URLs d')])))"
proof -
  let ?n = "length (URLs d')"
  let ?t = "''[url='' @ URLs d' ! i @ '']: '' @ e"
  let ?F = "\<lambda>j. if j = i then [AddError ?t] else normalizer (time_Now E j 0) (doc j)"
  have fail: "gatherURL E d' i (URLs d' ! i) = Done [] (Some e)"
    using assms(2,3,4,5) by (auto intro: gatherURL_decode_error)
  have ok: "gatherURL E d' j (URLs d' ! j) = Done (normalizer (time_Now E j 0) (doc j)) None"
    if "j < ?n" "j \<noteq> i" for j
    using assms(2,4,6) that by (auto intro: gatherURL_success)
  have calls: "calls_of E d' j (URLs d' ! j) = ?F j" if "j < ?n" for j
  proof (cases "j = i")
    case True
    with fail show ?thesis by (simp add: calls_of_def)
  next
    case False
    with ok [OF that] show ?thesis by (simp add: calls_of_def)
  qed
  have css: "map (\<lambda>(j, u). calls_of E d' j u) (enumerate 0 (URLs d')) = map ?F [0..<?n]"
    unfolding map_enumerate_upt using calls by (intro map_cong) simp_all
  from Gather_returns_nil [OF assms(1)]
  have "PassDone None d' acc' \<in> run_goroutines E d' acc" by simp
  from run_goroutines_outcome [OF assms(2) this] obtain zs where
    acc': "acc' = acc @ zs" and
    zs: "zs \<in> interleavings (map ?F [0..<?n])"
    unfolding css by auto
  have "concat (map errors_of (map ?F [0..<?n])) =
      concat (map (\<lambda>j. if j = i then [?t] else []) [0..<?n])"
    by (simp add: comp_def normalize_errors if_distrib [of errors_of] cong: if_cong)
  also have "\<dots> = [?t]"
    using assms(3) by (simp only: concat_only_at if_True)
  finally have "mset (errors_of zs) = mset [?t]"
    using interleavings_errors [OF zs] by simp
  then have errs: "errors_of zs = [?t]" by simp
  have "concat (map records_of (map ?F [0..<?n])) =
      concat (map (\<lambda>j. if j = i then []
                         else records_of (normalizer (time_Now E j 0) (doc j))) [0..<?n])"
    by (simp add: comp_def if_distrib [of records_of] cong: if_cong)
  then have recs: "mset (records_of zs) =
      mset (concat (map (\<lambda>j. if j = i then []
                         else records_of (normalizer (time_Now E j 0) (doc j))) [0..<?n]))"
    using interleavings_records [OF zs] by simp
  from fail acc' zs errs recs show ?thesis by blast
qed

lemma example_pass:
  "PassDone None example_ready
     (normalizer 0 example_doc @
      [AddError ''[url=http://b/metrics]: unexpected end of JSON input''])
   \<in> Gather example_env example_plugin []"
proof -
  have c: "client example_ready =
      Some \<lparr>Transport = \<lparr>ResponseHeaderTimeout = 5000000000, TLSClientConfig = ()\<rparr>,
            client_Timeout = 5000000000\<rparr>"
    by (simp add: example_ready_def)
  have u: "URLs example_ready = [''http://a/metrics'', ''http://b/metrics'']"
    by (simp add: example_ready_def example_plugin_def)
  have g: "Gather example_env example_plugin [] = run_goroutines example_env example_ready []"
    by (simp add: Gather_def example_env_def example_plugin_def example_ready_def)
  have a: "calls_of example_env example_ready 0 ''http://a/metrics'' = normalizer 0 example_doc"
    by (simp add: calls_of_def gatherURL_def c example_env_def DecodeJSONMetrics_def)
  have b: "calls_of example_env example_ready (Suc 0) ''http://b/metrics'' =
      [AddError ''[url=http://b/metrics]: unexpected end of JSON input'']"
    by (simp add: calls_of_def gatherURL_def c example_env_def DecodeJSONMetrics_def)
  have "concat (map (\<lambda>(i, u). calls_of example_env example_ready i u)
        (enumerate 0 (URLs example_ready))) =
      normalizer 0 example_doc @
      [AddError ''[url=http://b/metrics]: unexpected end of JSON input'']"
    by (simp add: u a b)
  with interleavings_nonempty
    [of "map (\<lambda>(i, u). calls_of example_env example_ready i u)
          (enumerate 0 (URLs example_ready))"]
  have "normalizer 0 example_doc @
      [AddError ''[url=http://b/metrics]: unexpected end of JSON input'']
    \<in> interleavings (map (\<lambda>(i, u). calls_of example_env example_ready i u)
          (enumerate 0 (URLs example_ready)))"
    by simp
  then show ?thesis
    unfolding g run_goroutines_client [OF c] by auto
qed

theorem decode_failure_is_isolated_witness:
  "PassDone None example_ready
     (normalizer 0 example_doc @
      [AddError ''[url=http://b/metrics]: unexpected end of JSON input''])
     \<in> Gather example_env example_plugin [] \<and>
   DecodeJSONMetrics example_env ''bad'' =
     (empty_doc\<lparr>Version := ''3.0.0''\<rparr>, Some ''unexpected end of JSON input'') \<and>
   gatherURL example_env example_ready 1 ''http://b/metrics'' =
     Done [] (Some ''unexpected end of JSON input'') \<and>
   errors_of (normalizer 0 example_doc @
      [AddError ''[url=http://b/metrics]: unexpected end of JSON input'']) =
     [''[url=http://b/metrics]: unexpected end of JSON input''] \<and>
   mset (records_of (normalizer 0 example_doc @
      [AddError ''[url=http://b/metrics]: unexpected end of JSON input''])) =
     mset (records_of (normalizer 0 example_doc))"
proof -
  let ?c = "\<lparr>Transport = \<lparr>ResponseHeaderTimeout = 5000000000, TLSClientConfig = ()\<rparr>,
            client_Timeout = 5000000000\<rparr>"
  let ?body = "\<lambda>j::nat. if j = 0 then ''good'' else ''bad''"
  let ?doc = "\<lambda>j::nat. example_doc"
  have c: "client example_ready = Some ?c"
    by (simp add: example_ready_def)
  have u: "URLs example_ready = [''http://a/metrics'', ''http://b/metrics'']"
    by (simp add: example_ready_def example_plugin_def)
  have i: "1 < length (URLs example_ready)"
    by (simp add: u)
  have get: "\<forall>j < length (URLs example_ready).
      client_Get example_env ?c j (URLs example_ready ! j) = Inr (?body j)"
    by (simp add: u example_env_def less_Suc_eq)
  have bad: "DecodeJSONMetrics example_env (?body 1) =
      (empty_doc\<lparr>Version := ''3.0.0''\<rparr>, Some ''unexpected end of JSON input'')"
    by (simp add: DecodeJSONMetrics_def example_env_def)
  have good: "\<forall>j < length (URLs example_ready). j \<noteq> 1 \<longrightarrow>
      DecodeJSONMetrics example_env (?body j) = (?doc j, None)"
    by (simp add: u DecodeJSONMetrics_def example_env_def less_Suc_eq)
  from decode_failure_is_isolated [OF example_pass c i get bad good] bad
  show ?thesis
    by (simp add: u example_pass)
qed

subsection \<open>Rounding an integer of 64 bits or more to a float64\<close>

lemma bit_length_pos: "0 < n \<Longrightarrow> 0 < bit_length n"
  by (subst bit_length.simps) simp

lemma bit_length_bounds:
  "0 < n \<Longrightarrow> 2 ^ (bit_length n - 1) \<le> n \<and> n < 2 ^ bit_length n"
proof (induction n rule: bit_length.induct)
  case (1 n)
  show ?case
  proof (cases "n div 2 = 0")
    case True
    with "1.prems" have "n = 1" by (simp add: div_eq_0_iff) 
    then show ?thesis by (simp add: bit_length.simps)
  next
    case False
    then have pos: "0 < n div 2" by simp
    with "1.prems" "1.IH" have IH: "2 ^ (bit_length (n div 2) - 1) \<le> n div 2"
      "n div 2 < 2 ^ bit_length (n div 2)"
      by simp_all
    have bl: "bit_length n = Suc (bit_length (n div 2))"
      using "1.prems" by (subst bit_length.simps) simp
    from bit_length_pos [OF pos] obtain k where k: "bit_length (n div 2) = Suc k"
      by (cases "bit_length (n div 2)") simp_all
    from IH have "2 * 2 ^ k \<le> 2 * (n div 2)" by (simp add: k)
    then have lo: "2 ^ Suc k \<le> n" by simp
    from IH have "n div 2 + 1 \<le> 2 ^ Suc k" by (simp add: k)
    then have "2 * (n div 2 + 1) \<le> 2 * 2 ^ Suc k" by (rule mult_le_mono2)
    moreover have "n < 2 * (n div 2 + 1)" by simp
    ultimately have hi: "n < 2 ^ Suc (Suc k)" by simp
    from lo hi show ?thesis by (simp add: bl k)
  qed
qed

lemma bit_length_one: "bit_length (Suc 0) = Suc 0"
  by (simp add: bit_length.simps)

lemma floor_log2_integer: "0 < n \<Longrightarrow> floor_log2 n 1 = int (bit_length n) - 1"
proof -
  assume n: "0 < n"
  from bit_length_pos [OF n] have "int (bit_length n) - 1 \<ge> 0" by simp
  moreover have "nat (int (bit_length n) - 1) = bit_length n - 1" by simp
  moreover from bit_length_bounds [OF n] have "2 ^ (bit_length n - 1) \<le> n" by simp
  ultimately show ?thesis
    by (simp add: floor_log2_def Let_def bit_length_one)
qed

lemma round_half_even_cases:
  assumes "0 < b"
  shows "(round_half_even n b = n div b \<and> 2 * (n mod b) \<le> b) \<or>
         (round_half_even n b = n div b + 1 \<and> b \<le> 2 * (n mod b))"
  by (auto simp: round_half_even_def Let_def)

lemma quotient_bounds:
  assumes "0 < n" and "0 < k" and "k \<le> bit_length n"
  shows "2 ^ (k - 1) \<le> n div 2 ^ (bit_length n - k)"
    and "n div 2 ^ (bit_length n - k) < 2 ^ k"
proof -
  let ?E = "bit_length n - k"
  from bit_length_bounds [OF assms(1)] have lo: "2 ^ (bit_length n - 1) \<le> n" and
    hi: "n < 2 ^ bit_length n" by simp_all
  have "bit_length n - 1 = (k - 1) + ?E"
    using assms(2,3) by simp
  then have "(2::nat) ^ (k - 1) * 2 ^ ?E = 2 ^ (bit_length n - 1)"
    by (simp only: power_add)
  with lo have "2 ^ (k - 1) * 2 ^ ?E \<le> n" by simp
  then have "2 ^ (k - 1) * 2 ^ ?E div 2 ^ ?E \<le> n div 2 ^ ?E" by (rule div_le_mono)
  then show "2 ^ (k - 1) \<le> n div 2 ^ ?E" by simp
  have "bit_length n = k + ?E"
    using assms(3) by simp
  then have "(2::nat) ^ k * 2 ^ ?E = 2 ^ bit_length n"
    by (simp only: power_add [symmetric])
  with hi have "n < 2 ^ k * 2 ^ ?E" by simp
  then show "n div 2 ^ ?E < 2 ^ k"
    by (simp add: less_mult_imp_div_less)
qed

lemma big_quotient:
  assumes "2 ^ 63 \<le> (n::nat)"
  defines "E \<equiv> bit_length n - 53"
  shows "2 ^ 52 \<le> n div 2 ^ E" and "n div 2 ^ E < 2 ^ 53" and "11 \<le> E"
    and "bit_length n = E + 53"
proof -
  from assms(1) have pos: "0 < n"
    by (rule less_le_trans [rotated]) simp
  from bit_length_bounds [OF pos] have hi: "n < 2 ^ bit_length n" by simp
  have "(2::nat) ^ 63 < 2 ^ bit_length n"
    using assms(1) hi by (rule le_less_trans)
  then have bl: "63 < bit_length n"
    by (rule power_less_imp_less_exp [rotated]) simp
  then show "11 \<le> E" and "bit_length n = E + 53"
    by (simp_all add: E_def)
  from bl have k: "53 \<le> bit_length n" by simp
  from quotient_bounds [OF pos _ k] show "2 ^ 52 \<le> n div 2 ^ E" and "n div 2 ^ E < 2 ^ 53"
    by (simp_all add: E_def)
qed

lemma float64_of_big_integer:
  assumes "2 ^ 63 \<le> (n::nat)"
  defines "E \<equiv> bit_length n - 53"
  defines "m \<equiv> round_half_even n (2 ^ E)"
  shows "float64_of_ratio neg n 1 =
    (if 971 < (if m = 2 ^ 53 then E + 1 else E) then Inl ErrRange
     else Inr (Float64 neg ((if m = 2 ^ 53 then E + 1 else E) + 1075)
                 ((if m = 2 ^ 53 then 2 ^ 52 else m) - 2 ^ 52)))"
    and "2 ^ 52 \<le> m" and "m \<le> 2 ^ 53"
proof -
  from assms(1) have pos: "0 < n"
    by (rule less_le_trans [rotated]) simp
  note q = big_quotient [OF assms(1), folded E_def]
  from round_half_even_cases [of "2 ^ E" n]
  have m: "m = n div 2 ^ E \<or> m = n div 2 ^ E + 1"
    unfolding m_def by auto
  with q show m_lo: "2 ^ 52 \<le> m" and m_hi: "m \<le> 2 ^ 53" by auto
  have fl: "floor_log2 n 1 = int E + 52"
    using floor_log2_integer [OF pos] q(4) by simp
  have e: "max (floor_log2 n 1 - 52) (- 1074) = int E"
    unfolding fl by simp
  have r: "round_half_even n (1 * 2 ^ nat (int E)) = m"
    by (simp add: m_def)
  from m_lo have m': "\<not> (if m = 2 ^ 53 then 2 ^ 52 else m) < 2 ^ 52"
    by simp
  have c: "(971 < (if m = 2 ^ 53 then int E + 1 else int E)) =
      (971 < (if m = 2 ^ 53 then E + 1 else E))"
    by auto
  have x: "nat ((if m = 2 ^ 53 then int E + 1 else int E) + 1075) =
      (if m = 2 ^ 53 then E + 1 else E) + 1075"
    by auto
  show "float64_of_ratio neg n 1 =
    (if 971 < (if m = 2 ^ 53 then E + 1 else E) then Inl ErrRange
     else Inr (Float64 neg ((if m = 2 ^ 53 then E + 1 else E) + 1075)
                 ((if m = 2 ^ 53 then 2 ^ 52 else m) - 2 ^ 52)))"
    unfolding float64_of_ratio_def Let_def e
    using pos m' by (simp only: r c x if_False if_True of_nat_0_le_iff) simp
qed

lemma f64_magnitude_nonneg: "0 \<le> f64_magnitude g"
  by (simp add: f64_magnitude_def)

lemma divide_le_self_rat: "0 \<le> (x::rat) \<Longrightarrow> 1 \<le> c \<Longrightarrow> x / c \<le> x"
  using frac_le [of x x 1 c] by simp

lemma f64_magnitude_small:
  assumes "f64_finite g" and "f_exp g < 1075"
  shows "f64_magnitude g < 2 ^ 53"
proof (cases "f_exp g = 0")
  case True
  have "(of_nat (f_frac g) :: rat) / 2 ^ 1074 \<le> of_nat (f_frac g)"
    by (rule divide_le_self_rat) simp_all
  also have "\<dots> < 2 ^ 53"
  proof -
    from assms(1) have "f_frac g < 2 ^ 53" by (simp add: f64_finite_def)
    then have "(of_nat (f_frac g) :: rat) < of_nat (2 ^ 53)" by (simp only: of_nat_less_iff)
    then show ?thesis by simp
  qed
  finally show ?thesis using True by (simp add: f64_magnitude_def)
next
  case False
  let ?M = "2 ^ 52 + f_frac g"
  have "(1::rat) \<le> 2 ^ (1075 - f_exp g)" by simp
  then have "(of_nat ?M :: rat) / 2 ^ (1075 - f_exp g) \<le> of_nat ?M"
    by (intro divide_le_self_rat) simp_all
  also have "\<dots> < 2 ^ 53"
  proof -
    from assms(1) have "?M < 2 ^ 53" by (simp add: f64_finite_def)
    then have "(of_nat ?M :: rat) < of_nat (2 ^ 53)" by (simp only: of_nat_less_iff)
    then show ?thesis by simp
  qed
  finally show ?thesis using False assms(2) by (simp add: f64_magnitude_def)
qed

lemma f64_magnitude_big:
  assumes "1075 \<le> f_exp g"
  shows "f64_magnitude g = of_nat ((2 ^ 52 + f_frac g) * 2 ^ (f_exp g - 1075))"
  using assms by (simp add: f64_magnitude_def)

lemma no_multiple_between:
  fixes M q P :: nat
  assumes "M < 2 * P" and "P \<le> q"
  shows "M * 2 ^ x \<le> q * 2 ^ E \<or> (q + 1) * 2 ^ E \<le> M * 2 ^ x"
proof (cases "E \<le> x")
  case True
  then have x: "x = (x - E) + E" by simp
  have eq: "M * 2 ^ x = (M * 2 ^ (x - E)) * 2 ^ E"
    by (subst x) (simp only: power_add mult.assoc)
  show ?thesis
  proof (cases "M * 2 ^ (x - E) \<le> q")
    case True
    then have "(M * 2 ^ (x - E)) * 2 ^ E \<le> q * 2 ^ E" by (rule mult_le_mono1)
    then show ?thesis unfolding eq by (rule disjI1)
  next
    case False
    then have "q + 1 \<le> M * 2 ^ (x - E)" by simp
    then have "(q + 1) * 2 ^ E \<le> (M * 2 ^ (x - E)) * 2 ^ E" by (rule mult_le_mono1)
    then show ?thesis unfolding eq by (rule disjI2)
  qed
next
  case False
  then have "Suc x \<le> E" by simp
  then have "(2::nat) ^ Suc x \<le> 2 ^ E" by (intro power_increasing) simp_all
  then have "P * 2 ^ Suc x \<le> P * 2 ^ E" by (rule mult_le_mono2)
  also have "\<dots> \<le> q * 2 ^ E" using assms(2) by (rule mult_le_mono1)
  finally have P: "P * 2 ^ Suc x \<le> q * 2 ^ E" .
  from assms(1) have "M \<le> 2 * P" by simp
  then have "M * 2 ^ x \<le> (2 * P) * 2 ^ x" by (rule mult_le_mono1)
  also have "(2 * P) * 2 ^ x = P * 2 ^ Suc x" by simp
  also note P
  finally have "M * 2 ^ x \<le> q * 2 ^ E" .
  then show ?thesis by (rule disjI1)
qed

lemma no_float64_between:
  assumes "f64_finite g" and "2 ^ 52 \<le> q" and "0 < E"
  shows "f64_magnitude g \<le> of_nat (q * 2 ^ E) \<or> of_nat ((q + 1) * 2 ^ E) \<le> f64_magnitude g"
proof (cases "f_exp g < 1075")
  case True
  from assms(3) have "(2::nat) ^ 1 \<le> 2 ^ E"
    by (intro power_increasing) simp_all
  then have "2 ^ 52 * (2::nat) ^ 1 \<le> q * 2 ^ E"
    using assms(2) by (intro mult_le_mono) simp_all
  then have "(2::nat) ^ 53 \<le> q * 2 ^ E" by simp
  then have "(of_nat (2 ^ 53) :: rat) \<le> of_nat (q * 2 ^ E)" by (simp only: of_nat_le_iff)
  then have "(2::rat) ^ 53 \<le> of_nat (q * 2 ^ E)" by simp
  with f64_magnitude_small [OF assms(1) True] show ?thesis by simp
next
  case False
  then have big: "1075 \<le> f_exp g" by simp
  from assms(1) have M: "2 ^ 52 + f_frac g < 2 * 2 ^ 52" by (simp add: f64_finite_def)
  from no_multiple_between [OF M assms(2), of "f_exp g - 1075" E]
  show ?thesis
    unfolding f64_magnitude_big [OF big] by (simp only: of_nat_le_iff)
qed

lemma nearest_of_neighbours:
  fixes y :: rat and a b r :: nat
  assumes "y \<le> of_nat a \<or> of_nat (a + b) \<le> y"
    and "R = a \<and> 2 * r \<le> b \<or> R = a + b \<and> b \<le> 2 * r"
    and "r < b"
  shows "\<bar>of_nat R - of_nat (a + r)\<bar> \<le> \<bar>y - of_nat (a + r)\<bar>"
proof -
  from assms(2) consider "R = a" "2 * r \<le> b" | "R = a + b" "b \<le> 2 * r" by blast
  then show ?thesis
  proof cases
    case 1
    then have "2 * (of_nat r :: rat) \<le> of_nat b"
      by (metis of_nat_le_iff of_nat_mult of_nat_numeral)
    with assms(1) 1(1) show ?thesis by (auto simp: of_nat_add)
  next
    case 2
    then have "(of_nat b :: rat) \<le> 2 * of_nat r"
      by (metis of_nat_le_iff of_nat_mult of_nat_numeral)
    moreover from assms(3) have "(of_nat r :: rat) < of_nat b" by (simp only: of_nat_less_iff)
    ultimately show ?thesis using assms(1) 2(1) by (auto simp: of_nat_add)
  qed
qed

subsection \<open>ParseFloat on an integer literal\<close>

lemma is_digit_lower: "is_digit c \<Longrightarrow> lower c = c"
  by (simp add: is_digit_def lower_def)

lemma is_digit_not_special:
  "is_digit c \<Longrightarrow> c \<noteq> CHR ''n'' \<and> c \<noteq> CHR ''i'' \<and> c \<noteq> CHR ''+'' \<and> c \<noteq> CHR ''-''"
  by (auto simp: is_digit_def)

lemma not_equalIgnoreCase_hd:
  "lower c \<noteq> lower t \<Longrightarrow> equalIgnoreCase (c # cs) (t # ts) = False"
  by (simp add: equalIgnoreCase_def)

lemma not_equalIgnoreCase_snd:
  "lower d \<noteq> lower u \<Longrightarrow> equalIgnoreCase (c # d # cs) (t # u # ts) = False"
  by (simp add: equalIgnoreCase_def)

lemma digit_lower_ne:
  assumes "is_digit d"
  shows "lower d \<noteq> lower (CHR ''+'')" "lower d \<noteq> lower (CHR ''-'')"
    "lower d \<noteq> lower (CHR ''n'')" "lower d \<noteq> lower (CHR ''i'')"
  using assms by (auto simp: is_digit_def lower_def)

lemma sign_lower_ne:
  assumes "c = CHR ''+'' \<or> c = CHR ''-''"
  shows "lower c \<noteq> lower (CHR ''n'')" "lower c \<noteq> lower (CHR ''i'')"
  using assms by (auto simp: lower_def)

lemma int_literal_shape:
  assumes "is_int_literal s"
  obtains (plain) d ds where "s = d # ds" "is_digit d" "list_all is_digit ds"
    "int_literal_value s = int (digits_val s)"
  | (plus) d ds where "s = CHR ''+'' # d # ds" "is_digit d" "list_all is_digit ds"
    "int_literal_value s = int (digits_val (d # ds))"
  | (minus) d ds where "s = CHR ''-'' # d # ds" "is_digit d" "list_all is_digit ds"
    "int_literal_value s = - int (digits_val (d # ds))"
proof (cases s)
  case Nil
  with assms show ?thesis by (simp add: is_int_literal_def)
next
  case (Cons c cs)
  show ?thesis
  proof (cases "c = CHR ''+'' \<or> c = CHR ''-''")
    case True
    with assms Cons obtain d ds where cs: "cs = d # ds" "is_digit d" "list_all is_digit ds"
      by (cases cs) (auto simp: is_int_literal_def)
    from True show ?thesis
    proof
      assume "c = CHR ''+''"
      with Cons cs show ?thesis
        by (intro plus [of d ds]) (simp_all add: int_literal_value_def)
    next
      assume "c = CHR ''-''"
      with Cons cs show ?thesis
        by (intro minus [of d ds]) (simp_all add: int_literal_value_def)
    qed
  next
    case False
    with assms Cons show ?thesis
      by (intro plain [of c cs]) (auto simp: is_int_literal_def int_literal_value_def)
  qed
qed

lemma special_digit_first: "is_digit d \<Longrightarrow> special (d # ds) = None"
  by (simp add: special_def not_equalIgnoreCase_hd digit_lower_ne)

lemma special_sign_digit:
  "c = CHR ''+'' \<or> c = CHR ''-'' \<Longrightarrow> is_digit d \<Longrightarrow> special (c # d # ds) = None"
  by (simp add: special_def not_equalIgnoreCase_hd not_equalIgnoreCase_snd digit_lower_ne
      sign_lower_ne)

lemma readFloat_digits:
  assumes "is_digit d" and "list_all is_digit ds"
  shows "readFloat (d # ds) = Some (False, digits_val (d # ds), 0)"
proof -
  from assms have all: "\<forall>c \<in> set (d # ds). is_digit c"
    by (simp add: list_all_iff)
  then have t: "takeWhile is_digit (d # ds) = d # ds"
    by (simp only: takeWhile_eq_all_conv)
  from all have dr: "dropWhile is_digit (d # ds) = []"
    by (simp only: dropWhile_eq_Nil_conv)
  from assms(1) have s: "d \<noteq> CHR ''+''" "d \<noteq> CHR ''-''"
    using is_digit_not_special [of d] by simp_all
  show ?thesis
    unfolding readFloat_def Let_def
    by (simp only: list.sel s if_False t dr simp_thms read_exponent_def list.case
        option.case append_Nil2 list.size) simp
qed

lemma readFloat_signed_digits:
  assumes "c = CHR ''+'' \<or> c = CHR ''-''" and "is_digit d" and "list_all is_digit ds"
  shows "readFloat (c # d # ds) = Some (c = CHR ''-'', digits_val (d # ds), 0)"
proof -
  from assms have all: "\<forall>c \<in> set (d # ds). is_digit c"
    by (simp add: list_all_iff)
  then have t: "takeWhile is_digit (d # ds) = d # ds"
    by (simp only: takeWhile_eq_all_conv)
  from all have dr: "dropWhile is_digit (d # ds) = []"
    by (simp only: dropWhile_eq_Nil_conv)
  have sel: "hd (c # d # ds) = c" "tl (c # d # ds) = d # ds" "(c # d # ds = []) = False"
    by simp_all
  show ?thesis
    unfolding readFloat_def Let_def sel
    using assms(1)
    by (simp only: if_True if_False t dr simp_thms read_exponent_def list.case
        option.case append_Nil2 list.size) simp
qed

lemma ParseFloat_int_literal:
  assumes "is_int_literal s"
  shows "ParseFloat s =
    float64_of_ratio (int_literal_value s < 0 \<or> (hd s = CHR ''-'')) (nat \<bar>int_literal_value s\<bar>) 1"
  using assms
proof (cases rule: int_literal_shape)
  case (plain d ds)
  then show ?thesis
    by (simp add: ParseFloat_def special_digit_first readFloat_digits
        is_digit_not_special)
next
  case (plus d ds)
  then show ?thesis
    by (simp add: ParseFloat_def special_sign_digit readFloat_signed_digits)
next
  case (minus d ds)
  then show ?thesis
    by (simp add: ParseFloat_def special_sign_digit readFloat_signed_digits)
qed

lemma digits_unquoted:
  assumes "list_all is_digit (d # ds)"
  shows "hd (d # ds) \<noteq> quote" and "last (d # ds) \<noteq> quote"
proof -
  from assms have "\<forall>c \<in> set (d # ds). is_digit c" by (simp only: list_all_iff)
  moreover have "\<not> is_digit quote" by (simp add: is_digit_def quote_def)
  ultimately have q: "quote \<notin> set (d # ds)" by blast
  have "hd (d # ds) \<in> set (d # ds)" by simp
  with q show "hd (d # ds) \<noteq> quote" by metis
  have "last (d # ds) \<in> set (d # ds)" by (rule last_in_set) simp
  with q show "last (d # ds) \<noteq> quote" by metis
qed

lemma int_literal_unquoted:
  assumes "is_int_literal s"
  shows "unquoted s"
  using assms
proof (cases rule: int_literal_shape)
  case (plain d ds)
  then have "list_all is_digit (d # ds)" by simp
  from digits_unquoted [OF this] show ?thesis
    unfolding unquoted_def plain(1) by simp
next
  case (plus d ds)
  then have "list_all is_digit (d # ds)" by simp
  from digits_unquoted(2) [OF this] have "last (CHR ''+'' # d # ds) \<noteq> quote" by simp
  then show ?thesis
    unfolding unquoted_def plus(1) by (simp add: quote_def)
next
  case (minus d ds)
  then have "list_all is_digit (d # ds)" by simp
  from digits_unquoted(2) [OF this] have "last (CHR ''-'' # d # ds) \<noteq> quote" by simp
  then show ?thesis
    unfolding unquoted_def minus(1) by (simp add: quote_def)
qed

lemma round_half_even_tie:
  "2 * (n mod b) = b \<Longrightarrow> odd (n div b) \<Longrightarrow> round_half_even n b = n div b + 1"
  by (simp add: round_half_even_def Let_def)

lemma overflow_iff:
  assumes "2 ^ 63 \<le> (n::nat)"
  defines "E \<equiv> bit_length n - 53"
  defines "m \<equiv> round_half_even n (2 ^ E)"
  shows "(971 < (if m = 2 ^ 53 then E + 1 else E)) = (2 ^ 1024 - 2 ^ 970 \<le> n)"
proof -
  note q = big_quotient [OF assms(1), folded E_def]
  note rc = round_half_even_cases [of "2 ^ E" n, folded m_def]
  have lo: "2 ^ 52 * 2 ^ E \<le> n"
    using q(1) by (simp add: less_eq_div_iff_mult_less_eq)
  have hi: "n < 2 ^ 53 * 2 ^ E"
    using q(2) by (simp add: div_less_iff_less_mult)
  consider "E \<le> 970" | "E = 971" | "972 \<le> E" by linarith
  then show ?thesis
  proof cases
    case 1
    then have "(2::nat) ^ E \<le> 2 ^ 970" by (intro power_increasing) simp_all
    then have "2 ^ 53 * (2::nat) ^ E \<le> 2 ^ 53 * 2 ^ 970" by (rule mult_le_mono2)
    with hi have "n < 2 ^ 53 * 2 ^ 970" by (rule less_le_trans)
    then have "\<not> 2 ^ 1024 - 2 ^ 970 \<le> n" by simp
    moreover from 1 have "\<not> 971 < (if m = 2 ^ 53 then E + 1 else E)" by simp
    ultimately show ?thesis by simp
  next
    case 3
    then have "(2::nat) ^ 972 \<le> 2 ^ E" by (intro power_increasing) simp_all
    then have "2 ^ 52 * (2::nat) ^ 972 \<le> 2 ^ 52 * 2 ^ E" by (rule mult_le_mono2)
    with lo have "2 ^ 52 * 2 ^ 972 \<le> n" by (rule le_trans [rotated])
    then have "2 ^ 1024 - 2 ^ 970 \<le> n" by simp
    moreover from 3 have "971 < (if m = 2 ^ 53 then E + 1 else E)" by simp
    ultimately show ?thesis by simp
  next
    case 2
    define b :: nat where "b = 2 ^ 971"
    define k where "k = n div b"
    define r where "r = n mod b"
    have n: "n = k * b + r" by (simp add: k_def r_def)
    have r: "r < b" by (simp add: r_def b_def)
    have k: "k < 2 ^ 53" using q(2) by (simp add: k_def b_def 2)
    from rc have m: "m = k \<and> 2 * r \<le> b \<or> m = k + 1 \<and> b \<le> 2 * r"
      by (simp add: k_def r_def b_def 2)
    have "(m = 2 ^ 53) = (2 ^ 1024 - 2 ^ 970 \<le> n)"
    proof
      assume "m = 2 ^ 53"
      with m k have "k = 2 ^ 53 - 1" and "b \<le> 2 * r" by auto
      with n show "2 ^ 1024 - 2 ^ 970 \<le> n" by (simp add: b_def)
    next
      assume big: "2 ^ 1024 - 2 ^ 970 \<le> n"
      have "(2 ^ 53 - 1) * b \<le> 2 ^ 1024 - 2 ^ 970" by (simp add: b_def)
      from this big have "(2 ^ 53 - 1) * b \<le> n" by (rule le_trans)
      then have "2 ^ 53 - 1 \<le> k"
        by (simp add: k_def less_eq_div_iff_mult_less_eq b_def)
      with k have k': "k = 2 ^ 53 - 1" by simp
      with n big have "b < 2 * r \<or> b = 2 * r" by (simp add: b_def) linarith
      then have "m = k + 1"
      proof
        assume "b < 2 * r"
        with m show ?thesis by auto
      next
        assume e: "b = 2 * r"
        have "odd (n div b)" unfolding k_def [symmetric] by (simp add: k')
        moreover have "2 * (n mod b) = b" unfolding r_def [symmetric] using e by simp
        ultimately have "round_half_even n b = n div b + 1"
          by (rule round_half_even_tie [rotated])
        then show ?thesis by (simp only: m_def 2 b_def k_def)
      qed
      with k' show "m = 2 ^ 53" by simp
    qed
    with 2 show ?thesis by simp
  qed
qed

lemma big_integer_overflows:
  assumes "2 ^ 63 \<le> (n::nat)" and "2 ^ 1024 - 2 ^ 970 \<le> n"
  shows "float64_of_ratio neg n 1 = Inl ErrRange"
  using float64_of_big_integer(1) [OF assms(1), of neg] overflow_iff [OF assms(1)] assms(2)
  by (simp only: if_True)

lemma big_integer_rounds:
  assumes "2 ^ 63 \<le> (n::nat)" and "n < 2 ^ 1024 - 2 ^ 970"
  shows "\<exists>f. float64_of_ratio neg n 1 = Inr f \<and> f64_finite f \<and> f_sign f = neg \<and>
    (\<forall>g. f64_finite g \<longrightarrow>
       \<bar>f64_magnitude f - of_nat n\<bar> \<le> \<bar>f64_magnitude g - of_nat n\<bar>)"
proof -
  define E where "E = bit_length n - 53"
  define m where "m = round_half_even n (2 ^ E)"
  define e' where "e' = (if m = 2 ^ 53 then E + 1 else E)"
  define m' where "m' = (if m = 2 ^ 53 then 2 ^ 52 else m)"
  define f where "f = Float64 neg (e' + 1075) (m' - 2 ^ 52)"
  note q = big_quotient [OF assms(1), folded E_def]
  note F1 = float64_of_big_integer(1)
    [OF assms(1), of neg, folded E_def m_def, folded e'_def m'_def]
  note F2 = float64_of_big_integer(2,3) [OF assms(1), folded E_def m_def]
  from overflow_iff [OF assms(1), folded E_def m_def, folded e'_def] assms(2)
  have e': "e' \<le> 971" by simp
  with F1 have res: "float64_of_ratio neg n 1 = Inr f"
    by (simp add: f_def)
  from F2 have m'_lo: "2 ^ 52 \<le> m'" and m'_hi: "m' < 2 ^ 53"
    by (auto simp: m'_def)
  from e' m'_hi m'_lo have fin: "f64_finite f"
    by (simp add: f64_finite_def f_def)
  have "f64_magnitude f = of_nat ((2 ^ 52 + (m' - 2 ^ 52)) * 2 ^ e')"
    by (simp add: f64_magnitude_def f_def)
  also have "(2 ^ 52 + (m' - 2 ^ 52)) * 2 ^ e' = m' * 2 ^ e'"
    using m'_lo by simp
  also have "m' * 2 ^ e' = m * 2 ^ E"
    by (simp add: m'_def e'_def)
  finally have mag: "f64_magnitude f = of_nat (m * 2 ^ E)" .
  define a where "a = (n div 2 ^ E) * 2 ^ E"
  define r where "r = n mod 2 ^ E"
  have n: "n = a + r" by (simp only: a_def r_def div_mult_mod_eq)
  have r: "r < 2 ^ E" by (simp add: r_def)
  from round_half_even_cases [of "2 ^ E" n, folded m_def]
  have R: "m * 2 ^ E = a \<and> 2 * r \<le> 2 ^ E \<or> m * 2 ^ E = a + 2 ^ E \<and> 2 ^ E \<le> 2 * r"
    by (auto simp: a_def r_def)
  have near: "\<bar>f64_magnitude f - of_nat n\<bar> \<le> \<bar>f64_magnitude g - of_nat n\<bar>"
    if g: "f64_finite g" for g
  proof -
    from q(3) have pos: "0 < E" by simp
    have eq: "(n div 2 ^ E + 1) * 2 ^ E = n div 2 ^ E * 2 ^ E + 2 ^ E" by simp
    note between = no_float64_between [OF g q(1) pos, unfolded eq, folded a_def]
    from nearest_of_neighbours [OF between R r] show ?thesis
      by (simp only: mag n)
  qed
  from res fin near show ?thesis
    by (intro exI [of _ f]) (simp add: f_def)
qed

lemma int_literal_sign:
  assumes "is_int_literal s"
  shows "(hd s = CHR ''-'') \<longrightarrow> int_literal_value s \<le> 0"
  using assms by (cases rule: int_literal_shape) (simp_all add: is_digit_not_special)

lemma value_distance:
  fixes D R G :: rat
  assumes "0 \<le> D" and "0 \<le> G" and "\<bar>R - D\<bar> \<le> \<bar>G - D\<bar>"
  shows "\<bar>R - D\<bar> \<le> \<bar>- G - D\<bar>" and "\<bar>- R - (- D)\<bar> \<le> \<bar>G - (- D)\<bar>"
    and "\<bar>- R - (- D)\<bar> \<le> \<bar>- G - (- D)\<bar>"
  using assms by linarith+

lemma big_literal_Float:
  assumes "is_int_literal s"
    and "int_literal_value s < - (2 ^ 63) \<or> 2 ^ 63 \<le> int_literal_value s"
    and "\<bar>int_literal_value s\<bar> < 2 ^ 1024 - 2 ^ 970"
  shows "\<exists>f. UnmarshalJSON s =
        Inr \<lparr>IntValue = 0, FloatValue = f, StringValue = [], Type = FloatType\<rparr> \<and>
      f64_finite f \<and>
      (\<forall>g. f64_finite g \<longrightarrow>
         \<bar>f64_value f - of_int (int_literal_value s)\<bar> \<le>
         \<bar>f64_value g - of_int (int_literal_value s)\<bar>)"
proof -
  let ?v = "int_literal_value s"
  define n where "n = nat \<bar>?v\<bar>"
  define neg where "neg = (?v < 0 \<or> hd s = CHR ''-'')"
  from assms(2) have big: "2 ^ 63 \<le> n" by (auto simp: n_def)
  from assms(3) have small: "n < 2 ^ 1024 - 2 ^ 970"
    by (simp add: n_def nat_less_iff)
  from assms(2) int_literal_sign [OF assms(1)] have neg: "neg = (?v < 0)"
    by (auto simp: neg_def)
  have v: "(of_int ?v :: rat) = (if neg then - of_nat n else of_nat n)"
    unfolding neg n_def by (simp add: of_nat_nat)
  have i: "isl (ParseInt s)"
  proof (cases "ParseInt s")
    case (Inl e)
    then show ?thesis by simp
  next
    case (Inr w)
    then have "- (2 ^ 63) \<le> ?v \<and> ?v < 2 ^ 63" by (simp add: ParseInt_Inr)
    with assms(2) show ?thesis by linarith
  qed
  from big_integer_rounds [OF big small, of neg] obtain f where
    f: "float64_of_ratio neg n 1 = Inr f" "f64_finite f" "f_sign f = neg" and
    near: "\<And>g. f64_finite g \<Longrightarrow>
      \<bar>f64_magnitude f - of_nat n\<bar> \<le> \<bar>f64_magnitude g - of_nat n\<bar>"
    by blast
  have "ParseFloat s = Inr f"
    using ParseFloat_int_literal [OF assms(1)] f(1) by (simp only: neg_def n_def)
  with i have u: "UnmarshalJSON s =
      Inr \<lparr>IntValue = 0, FloatValue = f, StringValue = [], Type = FloatType\<rparr>"
    by (rule UnmarshalJSON_Float)
  have "\<bar>f64_value f - of_int ?v\<bar> \<le> \<bar>f64_value g - of_int ?v\<bar>" if g: "f64_finite g" for g
  proof -
    note d = value_distance [OF _ f64_magnitude_nonneg [of g] near [OF g]]
    have n0: "(0::rat) \<le> of_nat n" by simp
    show ?thesis
      unfolding v f64_value_def f(3)
      using d [OF n0] near [OF g] by (cases neg; cases "f_sign g") simp_all
  qed
  with u f(2) show ?thesis by blast
qed

lemma big_literal_String:
  assumes "is_int_literal s"
    and "2 ^ 1024 - 2 ^ 970 \<le> \<bar>int_literal_value s\<bar>"
  shows "UnmarshalJSON s =
    Inr \<lparr>IntValue = 0, FloatValue = f64_zero, StringValue = s, Type = StringType\<rparr>"
proof -
  let ?v = "int_literal_value s"
  define n where "n = nat \<bar>?v\<bar>"
  from assms(2) have over: "2 ^ 1024 - 2 ^ 970 \<le> n"
    by (simp add: n_def le_nat_iff)
  then have big: "2 ^ 63 \<le> n" by simp
  from assms(2) have "2 ^ 64 \<le> \<bar>?v\<bar>" by simp
  then have out: "?v < - (2 ^ 63) \<or> 2 ^ 63 \<le> ?v" by (auto simp: abs_if split: if_splits)
  have i: "isl (ParseInt s)"
  proof (cases "ParseInt s")
    case (Inl e)
    then show ?thesis by simp
  next
    case (Inr w)
    then have "- (2 ^ 63) \<le> ?v \<and> ?v < 2 ^ 63" by (simp add: ParseInt_Inr)
    with out show ?thesis by linarith
  qed
  have "ParseFloat s = Inl ErrRange"
    using ParseFloat_int_literal [OF assms(1)] big_integer_overflows [OF big over]
    by (simp only: n_def)
  then have "isl (ParseFloat s)" by simp
  with i have "UnmarshalJSON s =
      Inr \<lparr>IntValue = 0, FloatValue = f64_zero, StringValue = Trim s [CHR 0x22],
           Type = StringType\<rparr>"
    by (rule UnmarshalJSON_String)
  moreover have "Trim s [CHR 0x22] = s"
    using Trim_unquoted [OF int_literal_unquoted [OF assms(1)]] by (simp add: quote_def)
  ultimately show ?thesis by simp
qed

subsection \<open>Integer literals beyond 64 bits\<close>

lemma foldl_digits_zeros:
  "foldl (\<lambda>n c. n * 10 + digit_of c) n (replicate k (CHR ''0'')) = n * 10 ^ k"
  by (induction k arbitrary: n) (simp_all add: digit_of_def)

lemma literal_power_of_ten:
  "is_int_literal (CHR ''1'' # replicate k (CHR ''0''))"
  "int_literal_value (CHR ''1'' # replicate k (CHR ''0'')) = 10 ^ k"
proof -
  have "list_all is_digit (replicate k (CHR ''0''))"
    by (simp add: list_all_iff is_digit_def)
  then show "is_int_literal (CHR ''1'' # replicate k (CHR ''0''))"
    by (simp add: is_int_literal_def is_digit_def)
  have "digits_val (CHR ''1'' # replicate k (CHR ''0'')) = 10 ^ k"
    using foldl_digits_zeros [of 1 k] by (simp add: digits_val_def digit_of_def)
  then show "int_literal_value (CHR ''1'' # replicate k (CHR ''0'')) = 10 ^ k"
    by (simp add: int_literal_value_def)
qed

text \<open>
  C10, as stated, fails: the integer literal 1 followed by 309 zeros lies outside the
  signed 64-bit range, yet it decodes to the String variant, since it rounds past the
  largest finite \<open>float64\<close> and the float parse reports a range error.
\<close>

theorem huge_literal_decoded_String_counterexample:
  "is_int_literal (CHR ''1'' # replicate 309 (CHR ''0'')) \<and>
   2 ^ 63 \<le> int_literal_value (CHR ''1'' # replicate 309 (CHR ''0'')) \<and>
   UnmarshalJSON (CHR ''1'' # replicate 309 (CHR ''0'')) =
     Inr \<lparr>IntValue = 0, FloatValue = f64_zero,
          StringValue = CHR ''1'' # replicate 309 (CHR ''0''), Type = StringType\<rparr>"
proof -
  let ?tok = "CHR ''1'' # replicate 309 (CHR ''0'')"
  have v: "int_literal_value ?tok = 10 ^ 309" by (rule literal_power_of_ten)
  have "2 ^ 1024 - 2 ^ 970 \<le> \<bar>int_literal_value ?tok\<bar>"
    unfolding v by simp
  from big_literal_String [OF literal_power_of_ten(1) this] literal_power_of_ten(1) [of 309]
  show ?thesis
    unfolding v by simp
qed

text \<open>
  C10, amended: for every integer literal whose value lies outside the signed 64-bit
  range the integer parse fails. If the magnitude is below \<open>2 ^ 1024 - 2 ^ 970\<close>, the
  bound from which rounding leaves the finite \<open>float64\<close> values, the token decodes to
  the Float variant, holding a finite \<open>float64\<close> that is at least as near to the
  literal's value as every other finite \<open>float64\<close>. From that bound on the float parse
  reports a range error and the token decodes to the String variant holding its text.
\<close>

theorem out_of_range_literal_decodes_Float:
  assumes "is_int_literal s"
    and "int_literal_value s < - (2 ^ 63) \<or> 2 ^ 63 \<le> int_literal_value s"
  shows "isl (ParseInt s) \<and>
    (\<bar>int_literal_value s\<bar> < 2 ^ 1024 - 2 ^ 970 \<longrightarrow>
       (\<exists>f. UnmarshalJSON s =
              Inr \<lparr>IntValue = 0, FloatValue = f, StringValue = [], Type = FloatType\<rparr> \<and>
            f64_finite f \<and>
            (\<forall>g. f64_finite g \<longrightarrow>
               \<bar>f64_value f - of_int (int_literal_value s)\<bar> \<le>
               \<bar>f64_value g - of_int (int_literal_value s)\<bar>))) \<and>
    (2 ^ 1024 - 2 ^ 970 \<le> \<bar>int_literal_value s\<bar> \<longrightarrow>
       UnmarshalJSON s =
         Inr \<lparr>IntValue = 0, FloatValue = f64_zero, StringValue = s, Type = StringType\<rparr>)"
proof (intro conjI impI)
  show "isl (ParseInt s)"
  proof (cases "ParseInt s")
    case (Inl e)
    then show ?thesis by simp
  next
    case (Inr w)
    then have "- (2 ^ 63) \<le> int_literal_value s \<and> int_literal_value s < 2 ^ 63"
      by (simp add: ParseInt_Inr)
    with assms(2) show ?thesis by linarith
  qed
next
  assume "\<bar>int_literal_value s\<bar> < 2 ^ 1024 - 2 ^ 970"
  with assms show "\<exists>f. UnmarshalJSON s =
        Inr \<lparr>IntValue = 0, FloatValue = f, StringValue = [], Type = FloatType\<rparr> \<and>
      f64_finite f \<and>
      (\<forall>g. f64_finite g \<longrightarrow>
         \<bar>f64_value f - of_int (int_literal_value s)\<bar> \<le>
         \<bar>f64_value g - of_int (int_literal_value s)\<bar>)"
    by (rule big_literal_Float)
next
  assume "2 ^ 1024 - 2 ^ 970 \<le> \<bar>int_literal_value s\<bar>"
  with assms(1) show "UnmarshalJSON s =
      Inr \<lparr>IntValue = 0, FloatValue = f64_zero, StringValue = s, Type = StringType\<rparr>"
    by (rule big_literal_String)
qed

lemma literal_above_int64:
  "is_int_literal ''9223372036854775808''"
  "int_literal_value ''9223372036854775808'' = 9223372036854775808"
  by (simp_all add: is_int_literal_def int_literal_value_def digits_val_def digit_of_def
      is_digit_def)

lemma example_Float:
  "UnmarshalJSON ''9223372036854775808'' =
     Inr \<lparr>IntValue = 0, FloatValue = Float64 False 1086 0, StringValue = [], Type = FloatType\<rparr>"
  by (simp add: UnmarshalJSON_def parse_eval)

theorem out_of_range_literal_decodes_Float_witness:
  "is_int_literal ''9223372036854775808'' \<and>
   2 ^ 63 \<le> int_literal_value ''9223372036854775808'' \<and>
   \<bar>int_literal_value ''9223372036854775808''\<bar> < 2 ^ 1024 - 2 ^ 970 \<and>
   isl (ParseInt ''9223372036854775808'') \<and>
   UnmarshalJSON ''9223372036854775808'' =
     Inr \<lparr>IntValue = 0, FloatValue = Float64 False 1086 0, StringValue = [], Type = FloatType\<rparr> \<and>
   f64_finite (Float64 False 1086 0) \<and>
   f64_value (Float64 False 1086 0) = 2 ^ 63 \<and>
   f64_finite (Float64 False 1085 4503599627370495) \<and>
   \<bar>f64_value (Float64 False 1086 0) - 2 ^ 63\<bar> \<le>
     \<bar>f64_value (Float64 False 1085 4503599627370495) - 2 ^ 63\<bar>"
proof -
  let ?tok = "''9223372036854775808''"
  note l = literal_above_int64
  have out: "int_literal_value ?tok < - (2 ^ 63) \<or> 2 ^ 63 \<le> int_literal_value ?tok"
    unfolding l(2) by simp
  have small: "\<bar>int_literal_value ?tok\<bar> < 2 ^ 1024 - 2 ^ 970"
    unfolding l(2) by simp
  note T = out_of_range_literal_decodes_Float [OF l(1) out]
  from T have i: "isl (ParseInt ?tok)" by (rule conjunct1)
  from T small obtain f where
    f: "UnmarshalJSON ?tok =
        Inr \<lparr>IntValue = 0, FloatValue = f, StringValue = [], Type = FloatType\<rparr>"
      "f64_finite f" and
    near: "\<forall>g. f64_finite g \<longrightarrow>
      \<bar>f64_value f - of_int (int_literal_value ?tok)\<bar> \<le>
      \<bar>f64_value g - of_int (int_literal_value ?tok)\<bar>"
    by blast
  from f(1) have ff: "f = Float64 False 1086 0"
    unfolding example_Float by simp
  have val: "f64_value (Float64 False 1086 0) = 2 ^ 63"
    by (simp add: f64_value_def f64_magnitude_def)
  have v: "(of_int (int_literal_value ?tok) :: rat) = 2 ^ 63"
    unfolding l(2) by simp
  have g: "f64_finite (Float64 False 1085 4503599627370495)"
    by (simp add: f64_finite_def)
  from near have "\<forall>g. f64_finite g \<longrightarrow>
      \<bar>f64_value (Float64 False 1086 0) - 2 ^ 63\<bar> \<le> \<bar>f64_value g - 2 ^ 63\<bar>"
    unfolding ff v .
  with g have "\<bar>f64_value (Float64 False 1086 0) - 2 ^ 63\<bar> \<le>
      \<bar>f64_value (Float64 False 1085 4503599627370495) - 2 ^ 63\<bar>"
    by blast
  moreover have "2 ^ 63 \<le> int_literal_value ?tok" unfolding l(2) by simp
  moreover from f(2) have "f64_finite (Float64 False 1086 0)" unfolding ff .
  ultimately show ?thesis
    using l(1) small i example_Float val g by (intro conjI)
qed

end
